theory Spec2Isabelle
  imports Complex_Main "HOL-Library.Multiset" "HOL-Library.Sublist"
begin

section \<open>Values, exceptions and call outcomes\<close>

text \<open>
  The pipeline of \<^verbatim>\<open>olac/pipeline.py\<close> moves Python objects around without computing on
  them, so the numeric payload is kept abstract: a feature is a real number, and a label or
  a score is a number, NumPy's not-a-number, or \<^verbatim>\<open>None\<close> (the default of the optional
  constructor arguments of \<^verbatim>\<open>QueuePoint\<close>).
\<close>

datatype pyval = PNone | PNum real | PNaN

text \<open>The exceptions that the source raises or catches by name; everything else is \<open>OtherError\<close>.\<close>

datatype exn = NotImplementedError | NotFittedError | ValueError | IndexError | OtherError string

text \<open>
  A call either returns a value, raises, or never returns because it waits on an empty
  queue (\<^verbatim>\<open>Queue.get\<close> with its default \<^verbatim>\<open>block=True\<close>).
\<close>

datatype 'a result = Returns 'a | Raises exn | Blocks

section \<open>QueuePoint\<close>

record QueuePoint =
  point :: "real list"
  index :: nat
  predicted_label :: pyval
  prob :: pyval
  true_label :: pyval

definition to_tuple :: "QueuePoint \<Rightarrow> real list \<times> nat \<times> pyval \<times> pyval \<times> pyval" where
  "to_tuple self = (point self, index self, predicted_label self, prob self, true_label self)"

section \<open>BatchQueue\<close>

text \<open>
  \<^verbatim>\<open>BatchQueue\<close> subclasses the standard library's unbounded \<^verbatim>\<open>queue.Queue\<close>. Of the base
  class the model keeps what the subclass touches: the FIFO buffer and the counter of
  unfinished tasks, which \<^verbatim>\<open>put\<close> increments and \<^verbatim>\<open>task_done\<close> decrements, raising
  \<^verbatim>\<open>ValueError\<close> when it is called more often than \<^verbatim>\<open>put\<close>.
\<close>

record 'a BatchQueue =
  items :: "'a list"
  unfinished_tasks :: nat

definition BatchQueue_init :: "'a BatchQueue" where
  "BatchQueue_init = \<lparr>items = [], unfinished_tasks = 0\<rparr>"

definition qsize :: "'a BatchQueue \<Rightarrow> nat" where
  "qsize q = length (items q)"

definition empty_queue :: "'a BatchQueue \<Rightarrow> bool" where
  "empty_queue q = (items q = [])"

definition put :: "'a BatchQueue \<Rightarrow> 'a \<Rightarrow> 'a BatchQueue" where
  "put q x = q\<lparr>items := items q @ [x], unfinished_tasks := Suc (unfinished_tasks q)\<rparr>"

definition get :: "'a BatchQueue \<Rightarrow> ('a \<times> 'a BatchQueue) result" where
  "get q = (case items q of [] \<Rightarrow> Blocks | x # xs \<Rightarrow> Returns (x, q\<lparr>items := xs\<rparr>))"

definition task_done :: "'a BatchQueue \<Rightarrow> 'a BatchQueue result" where
  "task_done q =
     (if unfinished_tasks q = 0 then Raises ValueError
      else Returns (q\<lparr>unfinished_tasks := unfinished_tasks q - 1\<rparr>))"

text \<open>
  \<^verbatim>\<open>get_all\<close>: the loop \<^verbatim>\<open>for _ in range(self.qsize())\<close> with its accumulator
  \<^verbatim>\<open>output\<close>. The number of rounds is fixed by the size read before the loop starts.
\<close>

fun get_all_loop :: "nat \<Rightarrow> 'a list \<Rightarrow> 'a BatchQueue \<Rightarrow> ('a list \<times> 'a BatchQueue) result" where
  "get_all_loop 0 output q = Returns (output, q)"
| "get_all_loop (Suc n) output q =
     (case get q of
        Blocks \<Rightarrow> Blocks
      | Raises e \<Rightarrow> Raises e
      | Returns (x, q1) \<Rightarrow>
          (case task_done q1 of
             Blocks \<Rightarrow> Blocks
           | Raises e \<Rightarrow> Raises e
           | Returns q2 \<Rightarrow> get_all_loop n (output @ [x]) q2))"

definition get_all :: "'a BatchQueue \<Rightarrow> ('a list \<times> 'a BatchQueue) result" where
  "get_all q = get_all_loop (qsize q) [] q"

fun put_all :: "'a BatchQueue \<Rightarrow> 'a list \<Rightarrow> 'a BatchQueue" where
  "put_all q [] = q"
| "put_all q (i # is) = put_all (put q i) is"

text \<open>
  \<^verbatim>\<open>get_all\<close> while other threads enqueue. Every \<^verbatim>\<open>Queue\<close> method runs under the queue's
  mutex, so the calls of \<^verbatim>\<open>get_all\<close> (one \<^verbatim>\<open>qsize\<close>, then \<^verbatim>\<open>get\<close> and \<^verbatim>\<open>task_done\<close> per
  round) are atomic, and other threads act between them. The interference is a list of
  batches: the first batch is enqueued before the first call after the size was read, the
  second before the next call, and so on. No other thread dequeues.
\<close>

fun interfere :: "'a list list \<Rightarrow> 'a BatchQueue \<Rightarrow> 'a list list \<times> 'a BatchQueue" where
  "interfere [] q = ([], q)"
| "interfere (b # env) q = (env, put_all q b)"

fun get_all_loop_conc ::
  "nat \<Rightarrow> 'a list list \<Rightarrow> 'a list \<Rightarrow> 'a BatchQueue \<Rightarrow> ('a list \<times> 'a BatchQueue) result" where
  "get_all_loop_conc 0 env output q = Returns (output, q)"
| "get_all_loop_conc (Suc n) env output q =
     (case interfere env q of (env1, qa) \<Rightarrow>
        (case get qa of
           Blocks \<Rightarrow> Blocks
         | Raises e \<Rightarrow> Raises e
         | Returns (x, q1) \<Rightarrow>
             (case interfere env1 q1 of (env2, qb) \<Rightarrow>
                (case task_done qb of
                   Blocks \<Rightarrow> Blocks
                 | Raises e \<Rightarrow> Raises e
                 | Returns q2 \<Rightarrow> get_all_loop_conc n env2 (output @ [x]) q2))))"

definition get_all_conc :: "'a list list \<Rightarrow> 'a BatchQueue \<Rightarrow> ('a list \<times> 'a BatchQueue) result" where
  "get_all_conc env q = get_all_loop_conc (qsize q) env [] q"

text \<open>
  The invariant of \<^verbatim>\<open>queue.Queue\<close>: every buffered item is an unfinished task. It holds of
  a fresh queue and is kept by \<^verbatim>\<open>put\<close>, and by \<^verbatim>\<open>get\<close> followed by \<^verbatim>\<open>task_done\<close>.
\<close>

definition queue_ok :: "'a BatchQueue \<Rightarrow> bool" where
  "queue_ok q = (length (items q) \<le> unfinished_tasks q)"


section \<open>The collaborators' interfaces\<close>

text \<open>
  In Python every callback receives the \<^verbatim>\<open>Pipeline\<close> object itself. The model hands each
  callback the part of the pipeline that the docstring of its base class lets it use: a
  predictor works with its own attributes, the model and the training queue (\<^verbatim>\<open>The
  Predictor may consume points from the training_queue, but putting predictions into the
  labelling queue is handled by the Pipeline\<close>); a labeller works with its own attributes
  and the labelling queue. The stop flag is the private attribute \<^verbatim>\<open>_stop_flag\<close>, which no
  callback receives. Every callback may change what it is handed. This holds of the two
  conditions too, which return their truth value with the new state of their object and of
  the queue: the base classes' docstrings expect conditions that take the points off the
  queue and store them in an attribute (\<^verbatim>\<open>make sure to store them in an object property
  as they will no longer be available in the queue\<close>). A callback runs as one atomic step.
\<close>

record ('m, 'p) Predictor =
  train_condition ::
    "'p \<Rightarrow> 'm \<Rightarrow> QueuePoint BatchQueue \<Rightarrow> (bool \<times> 'p \<times> 'm \<times> QueuePoint BatchQueue) result"
  train_pipeline_model ::
    "'p \<Rightarrow> 'm \<Rightarrow> QueuePoint BatchQueue \<Rightarrow> ('p \<times> 'm \<times> QueuePoint BatchQueue) result"
  do_prediction :: "'p \<Rightarrow> 'm \<Rightarrow> real list \<Rightarrow> (pyval \<times> pyval) result"

record 'l Labeller =
  buy_labels_condition ::
    "'l \<Rightarrow> QueuePoint BatchQueue \<Rightarrow> (bool \<times> 'l \<times> QueuePoint BatchQueue) result"
  buy_labels ::
    "'l \<Rightarrow> QueuePoint BatchQueue \<Rightarrow>
       ((QueuePoint list \<times> QueuePoint list) \<times> 'l \<times> QueuePoint BatchQueue) result"

text \<open>The base classes: every method raises \<^verbatim>\<open>NotImplementedError\<close>.\<close>

definition PredictorBase :: "('m, 'p) Predictor" where
  "PredictorBase =
     \<lparr>train_condition = (\<lambda>self m tq. Raises NotImplementedError),
      train_pipeline_model = (\<lambda>self m tq. Raises NotImplementedError),
      do_prediction = (\<lambda>self m x. Raises NotImplementedError)\<rparr>"

definition LabellerBase :: "'l Labeller" where
  "LabellerBase =
     \<lparr>buy_labels_condition = (\<lambda>self lq. Raises NotImplementedError),
      buy_labels = (\<lambda>self lq. Raises NotImplementedError)\<rparr>"

section \<open>The pipeline and its two workers\<close>

text \<open>
  Where each worker stands in its code. The prediction worker: the head of the \<^verbatim>\<open>for\<close>
  loop, the call of \<^verbatim>\<open>train_condition\<close>, of \<^verbatim>\<open>train_pipeline_model\<close>, the split of the
  record with the call of \<^verbatim>\<open>do_prediction\<close>, the \<^verbatim>\<open>put\<close>, and \<^verbatim>\<open>_stop_flag.set()\<close>
  after the loop. The positions inside the loop carry the loop variables \<^verbatim>\<open>i\<close> and
  \<^verbatim>\<open>new_point\<close>, and the \<^verbatim>\<open>put\<close> carries the point it is about to enqueue.
\<close>

datatype ppc =
    P_next
  | P_train_condition nat "real list"
  | P_train nat "real list"
  | P_predict nat "real list"
  | P_put QueuePoint
  | P_set
  | P_done
  | P_raised exn
  | P_blocked

text \<open>
  The labelling worker: the test of the \<^verbatim>\<open>while\<close> loop, the call of
  \<^verbatim>\<open>buy_labels_condition\<close>, of \<^verbatim>\<open>buy_labels\<close>, the two \<^verbatim>\<open>+=\<close> on the accumulators (with
  the two lists that \<^verbatim>\<open>buy_labels\<close> returned), the loop of \<^verbatim>\<open>put_all\<close> (with the items
  still to put), and the \<^verbatim>\<open>return\<close>.
\<close>

datatype lpc =
    L_while
  | L_condition
  | L_buy
  | L_accumulate "QueuePoint list" "QueuePoint list"
  | L_put_all "QueuePoint list"
  | L_done
  | L_raised exn
  | L_blocked

text \<open>
  What the prediction worker has done so far, recorded when each call returns: the result
  of \<^verbatim>\<open>train_condition\<close>, a training, a prediction with its argument and its two results,
  an enqueue on the labelling queue, and the setting of the stop flag.
\<close>

datatype event =
    E_train_condition bool
  | E_train
  | E_predict "real list" pyval pyval
  | E_put QueuePoint
  | E_signal

text \<open>Which of the labeller's two callbacks took a batch off the labelling queue.\<close>

datatype taker = By_condition | By_buy_labels

text \<open>
  The state of a run: the attributes of the \<^verbatim>\<open>Pipeline\<close> object, then the local variables
  of the two workers (\<^verbatim>\<open>enumerate\<close>'s counter; the two accumulators), then two histories
  that the code does not keep and that the properties below speak about: the log of the
  prediction worker, and the batches that the labeller's callbacks took off the labelling
  queue, one per call and in the order of the calls.
\<close>

record ('m, 'p, 'l) pipeline =
  data_generator :: "real list list"
  model :: 'm
  predictor :: 'p
  labeller :: 'l
  labelling_queue :: "QueuePoint BatchQueue"
  training_queue :: "QueuePoint BatchQueue"
  stop_flag :: bool
  ppc :: ppc
  enum_i :: nat
  lpc :: lpc
  training_set :: "QueuePoint list"
  eval_set :: "QueuePoint list"
  ptrace :: "event list"
  drains :: "(taker \<times> QueuePoint list) list"

definition QueuePoint_init :: "real list \<Rightarrow> nat \<Rightarrow> pyval \<Rightarrow> pyval \<Rightarrow> pyval \<Rightarrow> QueuePoint" where
  "QueuePoint_init pt i y_pred pr y_true =
     \<lparr>point = pt, index = i, predicted_label = y_pred, prob = pr, true_label = y_true\<rparr>"

text \<open>
  \<^verbatim>\<open>Pipeline.__init__\<close>, with both workers at their first statement. The four constructor
  arguments are present by their types, so the assertions of \<^verbatim>\<open>run\<close> and of the workers
  pass.
\<close>

definition Pipeline_init :: "real list list \<Rightarrow> 'm \<Rightarrow> 'p \<Rightarrow> 'l \<Rightarrow> ('m, 'p, 'l) pipeline" where
  "Pipeline_init dg m p l =
     \<lparr>data_generator = dg, model = m, predictor = p, labeller = l,
      labelling_queue = BatchQueue_init, training_queue = BatchQueue_init,
      stop_flag = False,
      ppc = P_next, enum_i = 0,
      lpc = L_while, training_set = [], eval_set = [],
      ptrace = [], drains = []\<rparr>"

text \<open>The two operations of the stop flag (\<^verbatim>\<open>Event.set\<close> and \<^verbatim>\<open>Event.is_set\<close>).\<close>

definition signal :: "('m, 'p, 'l) pipeline \<Rightarrow> ('m, 'p, 'l) pipeline" where
  "signal s = s\<lparr>stop_flag := True\<rparr>"

definition is_signaled :: "('m, 'p, 'l) pipeline \<Rightarrow> bool" where
  "is_signaled s = stop_flag s"

text \<open>
  One step of \<^verbatim>\<open>_prediction_worker\<close>. \<^verbatim>\<open>new_point[:-1]\<close> is \<open>butlast\<close>; \<^verbatim>\<open>new_point[-1]\<close>
  raises \<^verbatim>\<open>IndexError\<close> on an empty record. A worker that has returned, raised or blocked
  does nothing more.
\<close>

definition prediction_step ::
  "('m, 'p) Predictor \<Rightarrow> ('m, 'p, 'l) pipeline \<Rightarrow> ('m, 'p, 'l) pipeline" where
  "prediction_step P s =
     (case ppc s of
        P_next \<Rightarrow>
          (case data_generator s of
             [] \<Rightarrow> s\<lparr>ppc := P_set\<rparr>
           | new_point # rest \<Rightarrow>
               s\<lparr>data_generator := rest, ppc := P_train_condition (enum_i s) new_point,
                 enum_i := Suc (enum_i s)\<rparr>)
      | P_train_condition i new_point \<Rightarrow>
          (case train_condition P (predictor s) (model s) (training_queue s) of
             Returns (b, p', m', tq') \<Rightarrow>
               s\<lparr>predictor := p', model := m', training_queue := tq',
                 ppc := (if b then P_train i new_point else P_predict i new_point),
                 ptrace := ptrace s @ [E_train_condition b]\<rparr>
           | Raises e \<Rightarrow> s\<lparr>ppc := P_raised e\<rparr>
           | Blocks \<Rightarrow> s\<lparr>ppc := P_blocked\<rparr>)
      | P_train i new_point \<Rightarrow>
          (case train_pipeline_model P (predictor s) (model s) (training_queue s) of
             Returns (p', m', tq') \<Rightarrow>
               s\<lparr>predictor := p', model := m', training_queue := tq',
                 ppc := P_predict i new_point, ptrace := ptrace s @ [E_train]\<rparr>
           | Raises e \<Rightarrow> s\<lparr>ppc := P_raised e\<rparr>
           | Blocks \<Rightarrow> s\<lparr>ppc := P_blocked\<rparr>)
      | P_predict i new_point \<Rightarrow>
          (if new_point = [] then s\<lparr>ppc := P_raised IndexError\<rparr>
           else
             (case do_prediction P (predictor s) (model s) (butlast new_point) of
                Returns (y_pred, pr) \<Rightarrow>
                  s\<lparr>ppc := P_put (QueuePoint_init (butlast new_point) i y_pred pr
                                    (PNum (last new_point))),
                    ptrace := ptrace s @ [E_predict (butlast new_point) y_pred pr]\<rparr>
              | Raises e \<Rightarrow> s\<lparr>ppc := P_raised e\<rparr>
              | Blocks \<Rightarrow> s\<lparr>ppc := P_blocked\<rparr>))
      | P_put qp \<Rightarrow>
          s\<lparr>labelling_queue := put (labelling_queue s) qp, ppc := P_next,
            ptrace := ptrace s @ [E_put qp]\<rparr>
      | P_set \<Rightarrow> (signal s)\<lparr>ppc := P_done, ptrace := ptrace s @ [E_signal]\<rparr>
      | P_done \<Rightarrow> s
      | P_raised e \<Rightarrow> s
      | P_blocked \<Rightarrow> s)"

text \<open>
  One step of \<^verbatim>\<open>_labelling_worker\<close>. The batch that a callback took off the labelling
  queue is the front of the queue that is missing after the call.
\<close>

definition taken_off :: "'a BatchQueue \<Rightarrow> 'a BatchQueue \<Rightarrow> 'a list" where
  "taken_off q q' = take (qsize q - qsize q') (items q)"

definition labelling_step ::
  "'l Labeller \<Rightarrow> ('m, 'p, 'l) pipeline \<Rightarrow> ('m, 'p, 'l) pipeline" where
  "labelling_step L s =
     (case lpc s of
        L_while \<Rightarrow> (if \<not> is_signaled s then s\<lparr>lpc := L_condition\<rparr> else s\<lparr>lpc := L_done\<rparr>)
      | L_condition \<Rightarrow>
          (case buy_labels_condition L (labeller s) (labelling_queue s) of
             Returns (b, l', lq') \<Rightarrow>
               s\<lparr>labeller := l', labelling_queue := lq',
                 lpc := (if b then L_buy else L_while),
                 drains := drains s @ [(By_condition, taken_off (labelling_queue s) lq')]\<rparr>
           | Raises e \<Rightarrow> s\<lparr>lpc := L_raised e\<rparr>
           | Blocks \<Rightarrow> s\<lparr>lpc := L_blocked\<rparr>)
      | L_buy \<Rightarrow>
          (case buy_labels L (labeller s) (labelling_queue s) of
             Returns ((labelled_points, unlabelled_points), l', lq') \<Rightarrow>
               s\<lparr>labeller := l', labelling_queue := lq',
                 lpc := L_accumulate labelled_points unlabelled_points,
                 drains := drains s @ [(By_buy_labels, taken_off (labelling_queue s) lq')]\<rparr>
           | Raises e \<Rightarrow> s\<lparr>lpc := L_raised e\<rparr>
           | Blocks \<Rightarrow> s\<lparr>lpc := L_blocked\<rparr>)
      | L_accumulate labelled_points unlabelled_points \<Rightarrow>
          s\<lparr>training_set := training_set s @ labelled_points,
            eval_set := eval_set s @ unlabelled_points,
            lpc := L_put_all labelled_points\<rparr>
      | L_put_all [] \<Rightarrow> s\<lparr>lpc := L_while\<rparr>
      | L_put_all (i # is) \<Rightarrow> s\<lparr>training_queue := put (training_queue s) i, lpc := L_put_all is\<rparr>
      | L_done \<Rightarrow> s
      | L_raised e \<Rightarrow> s
      | L_blocked \<Rightarrow> s)"

text \<open>
  The two workers run as threads of a pool of two. A schedule says which worker takes the
  next step; a run is the steps of a schedule from the initial state.
\<close>

datatype worker = Prediction | Labelling

definition step ::
  "('m, 'p) Predictor \<Rightarrow> 'l Labeller \<Rightarrow> worker \<Rightarrow> ('m, 'p, 'l) pipeline \<Rightarrow> ('m, 'p, 'l) pipeline" where
  "step P L w s = (case w of Prediction \<Rightarrow> prediction_step P s | Labelling \<Rightarrow> labelling_step L s)"

fun exec ::
  "('m, 'p) Predictor \<Rightarrow> 'l Labeller \<Rightarrow> worker list \<Rightarrow> ('m, 'p, 'l) pipeline \<Rightarrow> ('m, 'p, 'l) pipeline" where
  "exec P L [] s = s"
| "exec P L (w # ws) s = exec P L ws (step P L w s)"

text \<open>
  \<^verbatim>\<open>Pipeline.run\<close> under a schedule. \<^verbatim>\<open>pool.join()\<close> returns once both tasks have
  returned, and \<^verbatim>\<open>results.get()\<close> is then the value of the labelling worker. When a task
  raises, the pool calls \<^verbatim>\<open>err_handler\<close> in its result-handler thread before it marks the
  task as finished; \<^verbatim>\<open>err_handler\<close> raises the exception there again, the thread dies, the
  task is never marked, and \<^verbatim>\<open>pool.join()\<close> waits for ever. So \<^verbatim>\<open>run\<close> ends only when both
  workers have returned, and it never raises. \<open>None\<close>: the schedule ends with \<^verbatim>\<open>run\<close> still
  waiting.
\<close>

definition run ::
  "('m, 'p) Predictor \<Rightarrow> 'l Labeller \<Rightarrow> worker list \<Rightarrow> real list list \<Rightarrow> 'm \<Rightarrow> 'p \<Rightarrow> 'l \<Rightarrow>
     (QueuePoint list \<times> QueuePoint list) result option" where
  "run P L sched dg m p l =
     (let s = exec P L sched (Pipeline_init dg m p l)
      in if ppc s = P_done \<and> lpc s = L_done
         then Some (Returns (training_set s, eval_set s))
         else None)"

text \<open>The points that the prediction worker has put on the labelling queue, in order.\<close>

fun puts_of :: "event list \<Rightarrow> QueuePoint list" where
  "puts_of [] = []"
| "puts_of (E_put qp # es) = qp # puts_of es"
| "puts_of (e # es) = puts_of es"

text \<open>
  The points taken off the labelling queue, in the order they were taken: all of them, and
  those that one of the two callbacks took.
\<close>

definition taken :: "(taker \<times> QueuePoint list) list \<Rightarrow> QueuePoint list" where
  "taken ds = concat (map snd ds)"

definition taken_by :: "taker \<Rightarrow> (taker \<times> QueuePoint list) list \<Rightarrow> QueuePoint list" where
  "taken_by c ds = concat (map snd (filter (\<lambda>d. fst d = c) ds))"

section \<open>OnlinePredictor\<close>

text \<open>
  The model handle is an external object with the scikit-learn interface. Its three
  methods that \<^verbatim>\<open>OnlinePredictor\<close> calls are parameters; \<^verbatim>\<open>predict\<close> and
  \<^verbatim>\<open>decision_function\<close> take the list of rows \<^verbatim>\<open>[x]\<close>.
\<close>

record 'm sklearn_model =
  predict :: "'m \<Rightarrow> real list list \<Rightarrow> pyval result"
  decision_function :: "'m \<Rightarrow> real list list \<Rightarrow> pyval result"
  partial_fit :: "'m \<Rightarrow> real list list \<Rightarrow> pyval list \<Rightarrow> int list \<Rightarrow> 'm result"

text \<open>\<^verbatim>\<open>np.vstack\<close> raises \<^verbatim>\<open>ValueError\<close> on no rows and on rows of different lengths.\<close>

definition vstack :: "real list list \<Rightarrow> real list list result" where
  "vstack rows =
     (case rows of
        [] \<Rightarrow> Raises ValueError
      | r # rs \<Rightarrow> if list_all (\<lambda>r'. length r' = length r) rs then Returns rows
                  else Raises ValueError)"

definition OnlinePredictor_train_condition :: "'p \<Rightarrow> 'm \<Rightarrow> QueuePoint BatchQueue \<Rightarrow> bool result" where
  "OnlinePredictor_train_condition self m tq = Returns (\<not> empty_queue tq)"

definition OnlinePredictor_train_pipeline_model ::
  "'m sklearn_model \<Rightarrow> 'p \<Rightarrow> 'm \<Rightarrow> QueuePoint BatchQueue \<Rightarrow> ('p \<times> 'm \<times> QueuePoint BatchQueue) result" where
  "OnlinePredictor_train_pipeline_model api self m tq =
     (case get_all tq of
        Blocks \<Rightarrow> Blocks
      | Raises e \<Rightarrow> Raises e
      | Returns (points, tq') \<Rightarrow>
          (case vstack (map point points) of
             Blocks \<Rightarrow> Blocks
           | Raises e \<Rightarrow> Raises e
           | Returns X_train \<Rightarrow>
               (case partial_fit api m X_train (map true_label points) [0, 1] of
                  Blocks \<Rightarrow> Blocks
                | Raises e \<Rightarrow> Raises e
                | Returns m' \<Rightarrow> Returns (self, m', tq'))))"

text \<open>
  \<^verbatim>\<open>do_prediction\<close>: both calls stand in the \<^verbatim>\<open>try\<close> block, and the handler catches
  \<^verbatim>\<open>NotFittedError\<close> only.
\<close>

definition OnlinePredictor_do_prediction ::
  "'m sklearn_model \<Rightarrow> 'p \<Rightarrow> 'm \<Rightarrow> real list \<Rightarrow> (pyval \<times> pyval) result" where
  "OnlinePredictor_do_prediction api self m x =
     (case predict api m [x] of
        Blocks \<Rightarrow> Blocks
      | Raises e \<Rightarrow> if e = NotFittedError then Returns (PNaN, PNaN) else Raises e
      | Returns y_pred \<Rightarrow>
          (case decision_function api m [x] of
             Blocks \<Rightarrow> Blocks
           | Raises e \<Rightarrow> if e = NotFittedError then Returns (PNaN, PNaN) else Raises e
           | Returns pr \<Rightarrow> Returns (y_pred, pr)))"

text \<open>
  The methods as the callbacks of a predictor. \<^verbatim>\<open>train_condition\<close> only reads the queue's
  emptiness, so it hands back what it was given.
\<close>

definition OnlinePredictor :: "'m sklearn_model \<Rightarrow> ('m, 'p) Predictor" where
  "OnlinePredictor api =
     \<lparr>train_condition = (\<lambda>self m tq.
        case OnlinePredictor_train_condition self m tq of
          Blocks \<Rightarrow> Blocks
        | Raises e \<Rightarrow> Raises e
        | Returns b \<Rightarrow> Returns (b, self, m, tq)),
      train_pipeline_model = OnlinePredictor_train_pipeline_model api,
      do_prediction = OnlinePredictor_do_prediction api\<rparr>"

section \<open>ThresholdLabeller\<close>

text \<open>
  The attributes of a \<^verbatim>\<open>ThresholdLabeller\<close> (its \<^verbatim>\<open>prob\<close> is \<open>label_prob\<close> here, the name
  \<open>prob\<close> being a field of \<^verbatim>\<open>QueuePoint\<close>), and the random source it reads: the values
  that the successive calls of \<^verbatim>\<open>np.random.uniform(0, 1)\<close> return, and how many of them
  have been drawn.
\<close>

record ThresholdLabeller =
  threshold :: int
  label_prob :: real
  labels_bought :: nat
  uniform :: "nat \<Rightarrow> real"
  draws :: nat

definition ThresholdLabeller_init :: "int \<Rightarrow> real \<Rightarrow> (nat \<Rightarrow> real) \<Rightarrow> ThresholdLabeller" where
  "ThresholdLabeller_init thr pr u =
     \<lparr>threshold = thr, label_prob = pr, labels_bought = 0, uniform = u, draws = 0\<rparr>"

definition ThresholdLabeller_buy_labels_condition ::
  "ThresholdLabeller \<Rightarrow> QueuePoint BatchQueue \<Rightarrow> bool result" where
  "ThresholdLabeller_buy_labels_condition self lq =
     (let n = qsize lq in if int n > threshold self then Returns True else Returns False)"

text \<open>The loop \<^verbatim>\<open>for point in points\<close> of \<^verbatim>\<open>buy_labels\<close>, with its two accumulators.\<close>

fun buy_labels_loop ::
  "QueuePoint list \<Rightarrow> ThresholdLabeller \<Rightarrow> QueuePoint list \<Rightarrow> QueuePoint list \<Rightarrow>
     ThresholdLabeller \<times> QueuePoint list \<times> QueuePoint list" where
  "buy_labels_loop [] self labelled_points unlabelled_points =
     (self, labelled_points, unlabelled_points)"
| "buy_labels_loop (pt # points) self labelled_points unlabelled_points =
     (if uniform self (draws self) < label_prob self
      then buy_labels_loop points
             (self\<lparr>draws := Suc (draws self), labels_bought := labels_bought self + 1\<rparr>)
             (labelled_points @ [pt]) unlabelled_points
      else buy_labels_loop points (self\<lparr>draws := Suc (draws self)\<rparr>)
             labelled_points (unlabelled_points @ [pt]))"

definition ThresholdLabeller_buy_labels ::
  "ThresholdLabeller \<Rightarrow> QueuePoint BatchQueue \<Rightarrow>
     ((QueuePoint list \<times> QueuePoint list) \<times> ThresholdLabeller \<times> QueuePoint BatchQueue) result" where
  "ThresholdLabeller_buy_labels self lq =
     (case get_all lq of
        Blocks \<Rightarrow> Blocks
      | Raises e \<Rightarrow> Raises e
      | Returns (points, lq') \<Rightarrow>
          (case buy_labels_loop points self [] [] of
             (self', labelled_points, unlabelled_points) \<Rightarrow>
               Returns ((labelled_points, unlabelled_points), self', lq')))"

text \<open>
  The methods as the callbacks of a labeller. \<^verbatim>\<open>buy_labels_condition\<close> only reads the
  queue's size, so it hands back what it was given.
\<close>

definition ThresholdLabeller_methods :: "ThresholdLabeller Labeller" where
  "ThresholdLabeller_methods =
     \<lparr>buy_labels_condition = (\<lambda>self lq.
        case ThresholdLabeller_buy_labels_condition self lq of
          Blocks \<Rightarrow> Blocks
        | Raises e \<Rightarrow> Raises e
        | Returns b \<Rightarrow> Returns (b, self, lq)),
      buy_labels = ThresholdLabeller_buy_labels\<rparr>"

text \<open>
  Which points of a batch the loop labels: the point at position \<open>k\<close> is labelled when the
  \<open>k\<close>-th value drawn from now is below \<open>label_prob\<close>.
\<close>

definition bought :: "ThresholdLabeller \<Rightarrow> nat \<Rightarrow> bool list" where
  "bought self n = map (\<lambda>k. uniform self (draws self + k) < label_prob self) [0..<n]"

section \<open>Predicates and inputs of the properties\<close>

text \<open>
  A labeller partitions what it drains: whenever \<^verbatim>\<open>buy_labels\<close> returns, what it took is
  a front part of the labelling queue, the rest of the queue is untouched, and the two
  returned lists together hold exactly the points taken.
\<close>

definition partitions_drained :: "'l Labeller \<Rightarrow> bool" where
  "partitions_drained L =
     (\<forall>l lq lp up l' lq'.
        buy_labels L l lq = Returns ((lp, up), l', lq') \<longrightarrow>
        (\<exists>d. items lq = d @ items lq' \<and> mset lp + mset up = mset d))"

text \<open>
  A labeller only consumes: whenever one of its two callbacks returns, the queue it leaves
  is a rear part of the queue it found, so what it took is a front part and it has put
  nothing on the queue (\<^verbatim>\<open>The Labeller may consume points from the labelling_queue\<close>).
\<close>

definition takes_front :: "'l Labeller \<Rightarrow> bool" where
  "takes_front L =
     ((\<forall>l lq b l' lq'.
         buy_labels_condition L l lq = Returns (b, l', lq') \<longrightarrow>
         (\<exists>d. items lq = d @ items lq')) \<and>
      (\<forall>l lq res l' lq'.
         buy_labels L l lq = Returns (res, l', lq') \<longrightarrow>
         (\<exists>d. items lq = d @ items lq')))"








text \<open>
  The collaborators of the end-to-end scenario: a predictor that never trains and always
  predicts label 0 with confidence 0.5, and a labeller that buys whenever the labelling
  queue is not empty and labels every point it drains. The stream has five records, of
  any features, with the true labels 0, 1, 0, 1, 1.
\<close>

definition ConstantPredictor :: "('m, 'p) Predictor" where
  "ConstantPredictor =
     \<lparr>train_condition = (\<lambda>self m tq. Returns (False, self, m, tq)),
      train_pipeline_model = (\<lambda>self m tq. Returns (self, m, tq)),
      do_prediction = (\<lambda>self m x. Returns (PNum 0, PNum (1/2)))\<rparr>"

definition BuyAllLabeller :: "'l Labeller" where
  "BuyAllLabeller =
     \<lparr>buy_labels_condition = (\<lambda>self lq. Returns (qsize lq \<ge> 1, self, lq)),
      buy_labels = (\<lambda>self lq.
        case get_all lq of
          Blocks \<Rightarrow> Blocks
        | Raises e \<Rightarrow> Raises e
        | Returns (points, lq') \<Rightarrow> Returns ((points, []), self, lq'))\<rparr>"

definition scenario_stream :: "real list list \<Rightarrow> real list list" where
  "scenario_stream xs = map2 (\<lambda>x y. x @ [y]) xs [0, 1, 0, 1, 1]"

definition scenario_points :: "real list list \<Rightarrow> QueuePoint list" where
  "scenario_points xs =
     map2 (\<lambda>i (x, y). QueuePoint_init x i (PNum 0) (PNum (1/2)) (PNum y))
       [0..<5] (zip xs [0, 1, 0, 1, 1])"

text \<open>
  A labeller as the docstring of \<^verbatim>\<open>LabellerBase.buy_labels_condition\<close> describes one: its
  condition takes the points off the labelling queue and stores them in an attribute (here
  the labeller is that list of points); this one then decides not to buy. Its
  \<^verbatim>\<open>buy_labels\<close> drains the queue and labels what it has drained.
\<close>

definition HoardingLabeller :: "QueuePoint list Labeller" where
  "HoardingLabeller =
     \<lparr>buy_labels_condition = (\<lambda>self lq.
        case get_all lq of
          Blocks \<Rightarrow> Blocks
        | Raises e \<Rightarrow> Raises e
        | Returns (points, lq') \<Rightarrow> Returns (False, self @ points, lq')),
      buy_labels = (\<lambda>self lq.
        case get_all lq of
          Blocks \<Rightarrow> Blocks
        | Raises e \<Rightarrow> Raises e
        | Returns (points, lq') \<Rightarrow> Returns ((points, []), self, lq'))\<rparr>"

text \<open>The states that a run visits, the first one included.\<close>

fun states ::
  "('m, 'p) Predictor \<Rightarrow> 'l Labeller \<Rightarrow> worker list \<Rightarrow> ('m, 'p, 'l) pipeline \<Rightarrow>
     ('m, 'p, 'l) pipeline list" where
  "states P L [] s = [s]"
| "states P L (w # ws) s = s # states P L ws (step P L w s)"

text \<open>
  A model handle for examples: the model is a flag that says whether it was fitted, and
  its methods raise \<^verbatim>\<open>NotFittedError\<close> until then, as scikit-learn's estimators do.
\<close>

definition flag_model :: "bool sklearn_model" where
  "flag_model =
     \<lparr>predict = (\<lambda>m X. if m then Returns (PNum 1) else Raises NotFittedError),
      decision_function = (\<lambda>m X. if m then Returns (PNum (3/4)) else Raises NotFittedError),
      partial_fit = (\<lambda>m X y classes. Returns True)\<rparr>"

section \<open>Invariants of a run\<close>

text \<open>
  The stop flag is set exactly when the prediction worker has returned, and the labelling
  worker returns only after it has seen the flag set.
\<close>

definition flags_inv :: "('m, 'p, 'l) pipeline \<Rightarrow> bool" where
  "flags_inv s = ((stop_flag s \<longleftrightarrow> ppc s = P_done) \<and> (lpc s = L_done \<longrightarrow> stop_flag s))"

text \<open>
  A point is one that the prediction worker builds from the stream \<open>dg\<close>: its index is a
  position of the stream, the record there splits into its features and its true label,
  and its predicted label and score are what \<^verbatim>\<open>do_prediction\<close> returned for the features.
\<close>

definition produced :: "('m, 'p) Predictor \<Rightarrow> real list list \<Rightarrow> QueuePoint \<Rightarrow> bool" where
  "produced P dg qp =
     (index qp < length dg \<and> dg ! index qp \<noteq> [] \<and>
      (\<exists>p m y_pred pr.
         do_prediction P p m (butlast (dg ! index qp)) = Returns (y_pred, pr) \<and>
         qp = QueuePoint_init (butlast (dg ! index qp)) (index qp) y_pred pr
                (PNum (last (dg ! index qp)))))"

text \<open>
  The prediction worker on the stream \<open>dg\<close>: the points put so far carry the indices
  0, 1, 2, ... in this order and are built from the stream, and the loop variables name
  the next position of the stream.
\<close>

definition in_round ::
  "real list list \<Rightarrow> ('m, 'p, 'l) pipeline \<Rightarrow> nat \<Rightarrow> nat \<Rightarrow> real list \<Rightarrow> bool" where
  "in_round dg s n i r =
     (i = n \<and> i < length dg \<and> r = dg ! i \<and>
      enum_i s = Suc i \<and> data_generator s = drop (Suc i) dg)"

definition pred_inv :: "('m, 'p) Predictor \<Rightarrow> real list list \<Rightarrow> ('m, 'p, 'l) pipeline \<Rightarrow> bool" where
  "pred_inv P dg s =
     (map index (puts_of (ptrace s)) = [0..<length (puts_of (ptrace s))] \<and>
      (\<forall>qp \<in> set (puts_of (ptrace s)). produced P dg qp) \<and>
      length (puts_of (ptrace s)) \<le> length dg \<and>
      (case ppc s of
         P_next \<Rightarrow>
           enum_i s = length (puts_of (ptrace s)) \<and>
           data_generator s = drop (length (puts_of (ptrace s))) dg
       | P_train_condition i r \<Rightarrow> in_round dg s (length (puts_of (ptrace s))) i r
       | P_train i r \<Rightarrow> in_round dg s (length (puts_of (ptrace s))) i r
       | P_predict i r \<Rightarrow> in_round dg s (length (puts_of (ptrace s))) i r
       | P_put qp \<Rightarrow>
           index qp = length (puts_of (ptrace s)) \<and> produced P dg qp \<and>
           enum_i s = Suc (index qp) \<and> data_generator s = drop (Suc (index qp)) dg
       | P_set \<Rightarrow> length (puts_of (ptrace s)) = length dg
       | P_done \<Rightarrow> length (puts_of (ptrace s)) = length dg
       | _ \<Rightarrow> True))"

text \<open>
  Every point put on the labelling queue was taken off it or is still in the queue, in
  the order of the puts.
\<close>

definition cons_inv :: "('m, 'p, 'l) pipeline \<Rightarrow> bool" where
  "cons_inv s = (puts_of (ptrace s) = taken (drains s) @ items (labelling_queue s))"

text \<open>
  The two accumulators, with the two lists that \<^verbatim>\<open>buy_labels\<close> has returned and that are
  not yet added to them, hold exactly the points that \<^verbatim>\<open>buy_labels\<close> has drained.
\<close>

fun pending :: "lpc \<Rightarrow> QueuePoint multiset" where
  "pending (L_accumulate lp up) = mset lp + mset up"
| "pending pc = {#}"

definition acc_inv :: "('m, 'p, 'l) pipeline \<Rightarrow> bool" where
  "acc_inv s =
     (mset (training_set s) + mset (eval_set s) + pending (lpc s) =
        mset (taken_by By_buy_labels (drains s)))"

text \<open>The part of the prediction worker's log that precedes the setting of the stop flag.\<close>

definition before_signal :: "event list \<Rightarrow> event list" where
  "before_signal tr = takeWhile (\<lambda>e. e \<noteq> E_signal) tr"

text \<open>
  The stop flag is set once, as the last thing the prediction worker does: its log holds
  the event exactly when the worker has returned, and then at the end only.
\<close>

definition signal_inv :: "('m, 'p, 'l) pipeline \<Rightarrow> bool" where
  "signal_inv s =
     (if ppc s = P_done then \<exists>tr. ptrace s = tr @ [E_signal] \<and> E_signal \<notin> set tr
      else E_signal \<notin> set (ptrace s))"

text \<open>
  A run with the base-class predictor and a threshold labeller of threshold at least 0:
  the prediction worker is at the head of its loop with a record to come, or about to
  call \<^verbatim>\<open>train_condition\<close>, or has raised; nothing was enqueued, the stop flag is not set,
  and the labelling worker is polling.
\<close>

definition stuck_inv :: "('m, 'p, ThresholdLabeller) pipeline \<Rightarrow> bool" where
  "stuck_inv s =
     (\<not> stop_flag s \<and> items (labelling_queue s) = [] \<and> 0 \<le> threshold (labeller s) \<and>
      (lpc s = L_while \<or> lpc s = L_condition) \<and>
      (case ppc s of
         P_next \<Rightarrow> data_generator s \<noteq> []
       | P_train_condition i r \<Rightarrow> True
       | P_raised e \<Rightarrow> True
       | _ \<Rightarrow> False))"

text \<open>
  With a labeller whose condition takes nothing and that labels every point it drains:
  nothing is ever unlabelled, and the training set, with the labelled list not yet added
  to it, is the points taken off the queue in the order they were taken.
\<close>

fun pending_labelled :: "lpc \<Rightarrow> QueuePoint list" where
  "pending_labelled (L_accumulate lp up) = lp"
| "pending_labelled pc = []"

fun pending_unlabelled :: "lpc \<Rightarrow> QueuePoint list" where
  "pending_unlabelled (L_accumulate lp up) = up"
| "pending_unlabelled pc = []"

definition buy_all_inv :: "('m, 'p, 'l) pipeline \<Rightarrow> bool" where
  "buy_all_inv s =
     (eval_set s = [] \<and> pending_unlabelled (lpc s) = [] \<and>
      training_set s @ pending_labelled (lpc s) = taken (drains s))"





section \<open>Properties of BatchQueue\<close>

lemma items_put_all: "items (put_all q xs) = items q @ xs"
  by (induction xs arbitrary: q) (simp_all add: put_def)

lemma unfinished_put_all: "unfinished_tasks (put_all q xs) = unfinished_tasks q + length xs"
  by (induction xs arbitrary: q) (simp_all add: put_def)

lemma put_all_foldl: "put_all q xs = foldl put q xs"
  by (induction xs arbitrary: q) simp_all

lemma queue_ok_init: "queue_ok BatchQueue_init"
  by (simp add: queue_ok_def BatchQueue_init_def)

lemma queue_ok_put: "queue_ok q \<Longrightarrow> queue_ok (put q x)"
  by (simp add: queue_ok_def put_def)

lemma queue_ok_put_all: "queue_ok q \<Longrightarrow> queue_ok (put_all q xs)"
  by (simp add: queue_ok_def items_put_all unfinished_put_all)

lemma get_all_loop_drains:
  "n \<le> length (items q) \<Longrightarrow> queue_ok q \<Longrightarrow>
   get_all_loop n out q =
     Returns (out @ take n (items q),
              q\<lparr>items := drop n (items q), unfinished_tasks := unfinished_tasks q - n\<rparr>)"
proof (induction n arbitrary: out q)
  case 0
  then show ?case by simp
next
  case (Suc n)
  then obtain x xs where q: "items q = x # xs"
    by (cases "items q") auto
  let ?q2 = "q\<lparr>items := xs, unfinished_tasks := unfinished_tasks q - 1\<rparr>"
  from Suc.prems q have pos: "unfinished_tasks q \<noteq> 0"
    by (auto simp: queue_ok_def)
  from Suc.prems q have "n \<le> length (items ?q2)" "queue_ok ?q2"
    by (auto simp: queue_ok_def)
  from Suc.IH[OF this] have "get_all_loop n (out @ [x]) ?q2 =
      Returns ((out @ [x]) @ take n xs,
               ?q2\<lparr>items := drop n xs, unfinished_tasks := unfinished_tasks q - 1 - n\<rparr>)"
    by simp
  with q pos show ?case
    by (simp add: get_def task_done_def)
qed

lemma get_all_drains:
  "queue_ok q \<Longrightarrow>
   get_all q = Returns (items q, q\<lparr>items := [], unfinished_tasks := unfinished_tasks q - length (items q)\<rparr>)"
  by (simp add: get_all_def qsize_def get_all_loop_drains)

lemma put_all_eq:
  "put_all q xs = q\<lparr>items := items q @ xs, unfinished_tasks := unfinished_tasks q + length xs\<rparr>"
  by (induction xs arbitrary: q) (simp_all add: put_def)

lemma get_all_fresh: "get_all (put_all BatchQueue_init xs) = Returns (xs, BatchQueue_init)"
proof -
  have "queue_ok (put_all (BatchQueue_init :: 'a BatchQueue) xs)"
    by (rule queue_ok_put_all[OF queue_ok_init])
  from get_all_drains[OF this] show ?thesis
    by (simp add: put_all_eq BatchQueue_init_def)
qed

text \<open>
  Claim C6. Enqueueing any sequence of items on a fresh queue, with \<^verbatim>\<open>put_all\<close> or with
  one \<^verbatim>\<open>put\<close> per item, and then calling \<^verbatim>\<open>get_all\<close> returns exactly those items in the
  same order and leaves the queue as a fresh one; \<^verbatim>\<open>get_all\<close> on that queue, with nothing
  enqueued in between, returns the empty list.
\<close>

theorem C6_enqueue_then_get_all:
  "get_all (put_all BatchQueue_init xs) = Returns (xs, BatchQueue_init) \<and>
   get_all (foldl put BatchQueue_init xs) = Returns (xs, BatchQueue_init) \<and>
   get_all (BatchQueue_init :: 'a BatchQueue) = Returns ([], BatchQueue_init)"
proof -
  have 1: "get_all (put_all BatchQueue_init xs) = Returns (xs, BatchQueue_init)"
    by (rule get_all_fresh)
  have 2: "get_all (BatchQueue_init :: 'a BatchQueue) = Returns ([], BatchQueue_init)"
    using get_all_fresh[of "[]"] by simp
  from 1 2 show ?thesis by (simp add: put_all_foldl)
qed

subsection \<open>get\_all under concurrent enqueues\<close>

lemma interfere_eq: "interfere env q = (drop 1 env, put_all q (concat (take 1 env)))"
  by (cases env) simp_all

lemma get_all_loop_conc_drains:
  "n \<le> length (items q) \<Longrightarrow> queue_ok q \<Longrightarrow>
   get_all_loop_conc n env out q =
     Returns (out @ take n (items q),
              q\<lparr>items := drop n (items q) @ concat (take (2 * n) env),
                unfinished_tasks := unfinished_tasks q + length (concat (take (2 * n) env)) - n\<rparr>)"
proof (induction n arbitrary: env out q)
  case 0
  then show ?case by simp
next
  case (Suc n)
  then obtain x xs where q: "items q = x # xs"
    by (cases "items q") auto
  let ?b1 = "concat (take 1 env)"
  let ?e1 = "drop 1 env"
  let ?b2 = "concat (take 1 ?e1)"
  let ?e2 = "drop 1 ?e1"
  let ?q2 = "q\<lparr>items := xs @ ?b1 @ ?b2,
               unfinished_tasks := unfinished_tasks q + length ?b1 + length ?b2 - 1\<rparr>"
  from Suc.prems q have pos: "unfinished_tasks q \<noteq> 0"
    by (auto simp: queue_ok_def)
  from Suc.prems q have ok: "n \<le> length (items ?q2)" "queue_ok ?q2"
    by (auto simp: queue_ok_def)
  have step: "get_all_loop_conc (Suc n) env out q = get_all_loop_conc n ?e2 (out @ [x]) ?q2"
    using q pos
    by (simp add: interfere_eq get_def task_done_def put_all_eq del: One_nat_def)
  have env: "concat (take (2 * Suc n) env) = ?b1 @ ?b2 @ concat (take (2 * n) ?e2)"
  proof (cases env)
    case Nil
    then show ?thesis by simp
  next
    case (Cons b1 env1)
    then show ?thesis by (cases env1) simp_all
  qed
  from Suc.prems q have n: "n \<le> length xs" by simp
  show ?case
    unfolding step Suc.IH[OF ok] using q env n pos by simp
qed

text \<open>
  Claim C9. When the caller is the only thread that dequeues, \<^verbatim>\<open>get_all\<close> returns without
  blocking and without raising, whatever other threads enqueue between its calls on the
  queue. It returns exactly the items that were in the queue when it read the size, as
  many as that size and in their order; what was enqueued after the size was read is not
  in the returned list and stays in the queue.
\<close>

theorem C9_get_all_terminates:
  assumes "queue_ok q"
  shows "get_all_conc env q =
     Returns (items q,
              q\<lparr>items := concat (take (2 * qsize q) env),
                unfinished_tasks :=
                  unfinished_tasks q + length (concat (take (2 * qsize q) env)) - qsize q\<rparr>)"
  using assms by (simp add: get_all_conc_def qsize_def get_all_loop_conc_drains)

theorem C9_get_all_terminates_witness:
  "queue_ok (put_all BatchQueue_init [1, 2, 3 :: nat]) \<and>
   get_all_conc [[4], [], [5, 6]] (put_all BatchQueue_init [1, 2, 3 :: nat]) =
     Returns ([1, 2, 3], \<lparr>items = [4, 5, 6], unfinished_tasks = 3\<rparr>)"
proof -
  have h: "queue_ok (put_all BatchQueue_init [1, 2, 3 :: nat])"
    by (rule queue_ok_put_all[OF queue_ok_init])
  from C9_get_all_terminates[OF h, of "[[4], [], [5, 6]]"] h show ?thesis
    by (simp add: put_all_eq BatchQueue_init_def qsize_def)
qed

section \<open>Properties of ThresholdLabeller\<close>

lemma bought_labels_bought: "bought (self\<lparr>labels_bought := k\<rparr>) n = bought self n"
  by (simp add: bought_def)

lemma bought_Suc:
  "bought self (Suc n) =
     (uniform self (draws self) < label_prob self) # bought (self\<lparr>draws := Suc (draws self)\<rparr>) n"
  by (simp_all add: bought_def upt_conv_Cons map_Suc_upt[symmetric] del: upt_Suc)

lemma length_bought: "length (bought self n) = n"
  by (simp add: bought_def)

lemma buy_labels_loop_eq:
  "buy_labels_loop pts self lp up =
     (self\<lparr>draws := draws self + length pts,
           labels_bought := labels_bought self + length (filter id (bought self (length pts)))\<rparr>,
      lp @ map fst (filter snd (zip pts (bought self (length pts)))),
      up @ map fst (filter (\<lambda>pb. \<not> snd pb) (zip pts (bought self (length pts)))))"
proof (induction pts arbitrary: self lp up)
  case Nil
  then show ?case by (simp add: bought_def)
next
  case (Cons pt pts)
  show ?case
    by (simp add: Cons.IH bought_Suc bought_labels_bought)
qed

lemma mset_mask_split:
  "length bs = length xs \<Longrightarrow>
   mset (map fst (filter snd (zip xs bs))) + mset (map fst (filter (\<lambda>pb. \<not> snd pb) (zip xs bs)))
     = mset xs"
  by (induction xs bs rule: list_induct2') auto

lemma subseq_mask: "subseq (map fst (filter Q (zip xs bs))) xs"
proof (induction xs arbitrary: bs)
  case Nil
  then show ?case by simp
next
  case (Cons x xs)
  then show ?case by (cases bs) auto
qed

lemma count_mask:
  "length bs = length xs \<Longrightarrow> length (filter id bs) = length (filter snd (zip xs bs))"
  by (induction xs bs rule: list_induct2') auto

lemma ThresholdLabeller_buy_labels_eq:
  assumes "queue_ok lq"
  shows "ThresholdLabeller_buy_labels self lq =
     Returns ((map fst (filter snd (zip (items lq) (bought self (qsize lq)))),
               map fst (filter (\<lambda>pb. \<not> snd pb) (zip (items lq) (bought self (qsize lq))))),
              self\<lparr>draws := draws self + qsize lq,
                   labels_bought := labels_bought self + length (filter id (bought self (qsize lq)))\<rparr>,
              lq\<lparr>items := [], unfinished_tasks := unfinished_tasks lq - length (items lq)\<rparr>)"
  by (simp add: ThresholdLabeller_buy_labels_def get_all_drains[OF assms] buy_labels_loop_eq
      qsize_def)

text \<open>
  Claim C10. \<^verbatim>\<open>ThresholdLabeller.buy_labels\<close> drains the labelling queue and puts every
  drained point into exactly one of the two lists it returns: the point at position \<open>k\<close>
  goes to the labelled list when the \<open>k\<close>-th random draw is below the labelling
  probability, and to the unlabelled list otherwise. Each list keeps the drained order,
  and the counter of labels bought grows by the length of the labelled list.
\<close>

theorem C10_buy_labels_partitions:
  assumes "queue_ok lq"
  shows "\<exists>lp up self' lq'.
     ThresholdLabeller_buy_labels self lq = Returns ((lp, up), self', lq') \<and>
     lp = map fst (filter snd (zip (items lq) (bought self (qsize lq)))) \<and>
     up = map fst (filter (\<lambda>pb. \<not> snd pb) (zip (items lq) (bought self (qsize lq)))) \<and>
     mset lp + mset up = mset (items lq) \<and>
     subseq lp (items lq) \<and> subseq up (items lq) \<and>
     labels_bought self' = labels_bought self + length lp \<and>
     items lq' = []"
proof -
  let ?bs = "bought self (qsize lq)"
  let ?lp = "map fst (filter snd (zip (items lq) ?bs))"
  let ?up = "map fst (filter (\<lambda>pb. \<not> snd pb) (zip (items lq) ?bs))"
  let ?self' = "self\<lparr>draws := draws self + qsize lq,
                      labels_bought := labels_bought self + length (filter id ?bs)\<rparr>"
  let ?lq' = "lq\<lparr>items := [], unfinished_tasks := unfinished_tasks lq - length (items lq)\<rparr>"
  have len: "length ?bs = length (items lq)"
    by (simp add: length_bought qsize_def)
  have call: "ThresholdLabeller_buy_labels self lq = Returns ((?lp, ?up), ?self', ?lq')"
    by (rule ThresholdLabeller_buy_labels_eq[OF assms])
  have part: "mset ?lp + mset ?up = mset (items lq)"
    by (rule mset_mask_split[OF len])
  have sub: "subseq ?lp (items lq)" "subseq ?up (items lq)"
    by (rule subseq_mask)+
  have cnt: "labels_bought ?self' = labels_bought self + length ?lp"
    using count_mask[OF len] by simp
  have emp: "items ?lq' = []"
    by simp
  from call part sub cnt emp show ?thesis
    by blast
qed

theorem C10_buy_labels_partitions_witness:
  "queue_ok (put_all BatchQueue_init
      [QueuePoint_init [1] 0 PNaN PNaN (PNum 0), QueuePoint_init [2] 1 PNaN PNaN (PNum 1),
       QueuePoint_init [3] 2 PNaN PNaN (PNum 0)]) \<and>
   (\<exists>self' lq'.
      ThresholdLabeller_buy_labels (ThresholdLabeller_init 0 (1/2) (\<lambda>k. if k = 1 then 1 else 0))
        (put_all BatchQueue_init
          [QueuePoint_init [1] 0 PNaN PNaN (PNum 0), QueuePoint_init [2] 1 PNaN PNaN (PNum 1),
           QueuePoint_init [3] 2 PNaN PNaN (PNum 0)]) =
        Returns (([QueuePoint_init [1] 0 PNaN PNaN (PNum 0), QueuePoint_init [3] 2 PNaN PNaN (PNum 0)],
                  [QueuePoint_init [2] 1 PNaN PNaN (PNum 1)]), self', lq') \<and>
      labels_bought self' = 2 \<and> items lq' = [])"
proof -
  let ?lq = "put_all BatchQueue_init
      [QueuePoint_init [1] 0 PNaN PNaN (PNum 0), QueuePoint_init [2] 1 PNaN PNaN (PNum 1),
       QueuePoint_init [3] 2 PNaN PNaN (PNum 0)]"
  let ?self = "ThresholdLabeller_init 0 (1/2) (\<lambda>k. if k = 1 then 1 else 0)"
  have h: "queue_ok ?lq"
    by (rule queue_ok_put_all[OF queue_ok_init])
  have b: "bought ?self (qsize ?lq) = [True, False, True]"
    by (simp add: bought_def qsize_def put_all_eq BatchQueue_init_def ThresholdLabeller_init_def
        upt_rec)
  from C10_buy_labels_partitions[OF h, of ?self] obtain lp up self' lq' where
    r: "ThresholdLabeller_buy_labels ?self ?lq = Returns ((lp, up), self', lq')"
    and lp: "lp = map fst (filter snd (zip (items ?lq) (bought ?self (qsize ?lq))))"
    and up: "up = map fst (filter (\<lambda>pb. \<not> snd pb) (zip (items ?lq) (bought ?self (qsize ?lq))))"
    and n: "labels_bought self' = labels_bought ?self + length lp"
    and e: "items lq' = []"
    by blast
  have "lp = [QueuePoint_init [1] 0 PNaN PNaN (PNum 0), QueuePoint_init [3] 2 PNaN PNaN (PNum 0)]"
    unfolding lp b by (simp add: put_all_eq BatchQueue_init_def)
  moreover have "up = [QueuePoint_init [2] 1 PNaN PNaN (PNum 1)]"
    unfolding up b by (simp add: put_all_eq BatchQueue_init_def)
  ultimately show ?thesis
    using h r n e by (simp add: ThresholdLabeller_init_def)
qed

section \<open>Properties of OnlinePredictor\<close>

text \<open>
  Claim C7. When the model has not been fitted, so that its \<^verbatim>\<open>predict\<close> raises
  \<^verbatim>\<open>NotFittedError\<close>, \<^verbatim>\<open>OnlinePredictor.do_prediction\<close> returns not-a-number for the label
  and for the confidence. It never raises \<^verbatim>\<open>NotFittedError\<close>, and in the pipeline the
  prediction worker goes on to enqueue the point with the two not-a-number values.
\<close>

theorem C7_do_prediction_unfitted:
  "(predict api m [x] = Raises NotFittedError \<longrightarrow>
      OnlinePredictor_do_prediction api self m x = Returns (PNaN, PNaN)) \<and>
   OnlinePredictor_do_prediction api self m x \<noteq> Raises NotFittedError \<and>
   (ppc s = P_predict i r \<and> r \<noteq> [] \<and> predict api (model s) [butlast r] = Raises NotFittedError \<longrightarrow>
      ppc (prediction_step (OnlinePredictor api) s) =
        P_put (QueuePoint_init (butlast r) i PNaN PNaN (PNum (last r))))"
  by (auto simp: OnlinePredictor_do_prediction_def OnlinePredictor_def prediction_step_def
      split: result.splits)

theorem C7_do_prediction_unfitted_witness:
  "predict flag_model False [[1, 2]] = Raises NotFittedError \<and>
   OnlinePredictor_do_prediction flag_model () False [1, 2] = Returns (PNaN, PNaN) \<and>
   ppc (prediction_step (OnlinePredictor flag_model)
         ((Pipeline_init [] False () ())\<lparr>ppc := P_predict 0 [1, 2, 0]\<rparr>)) =
     P_put (QueuePoint_init [1, 2] 0 PNaN PNaN (PNum 0))"
  using C7_do_prediction_unfitted[of flag_model False "[1, 2]" "()"
      "(Pipeline_init [] False () ())\<lparr>ppc := P_predict 0 [1, 2, 0]\<rparr>" 0 "[1, 2, 0]"]
  by (simp add: flag_model_def Pipeline_init_def)

section \<open>Properties of a run\<close>

lemma exec_append: "exec P L (ws @ ws') s = exec P L ws' (exec P L ws s)"
  by (induction ws arbitrary: s) simp_all

lemma exec_invariant:
  assumes "\<And>s w. I s \<Longrightarrow> I (step P L w s)" and "I s"
  shows "I (exec P L sched s)"
  using assms(2)
proof (induction sched arbitrary: s)
  case Nil
  then show ?case by simp
next
  case (Cons w ws)
  then show ?case by (simp add: assms(1))
qed

lemma stop_flag_labelling_step: "stop_flag (labelling_step L s) = stop_flag s"
  by (simp add: labelling_step_def split: lpc.splits result.splits prod.splits list.splits)

lemma ppc_labelling_step: "ppc (labelling_step L s) = ppc s"
  by (simp add: labelling_step_def split: lpc.splits result.splits prod.splits list.splits)

lemma lpc_prediction_step: "lpc (prediction_step P s) = lpc s"
  by (simp add: prediction_step_def signal_def split: ppc.splits result.splits prod.splits list.splits)

lemma stop_flag_prediction_step:
  "stop_flag (prediction_step P s) = (stop_flag s \<or> ppc s = P_set)"
  by (simp add: prediction_step_def signal_def split: ppc.splits result.splits prod.splits list.splits)

lemma stop_flag_step_mono: "stop_flag s \<Longrightarrow> stop_flag (step P L w s)"
  by (cases w) (simp_all add: step_def stop_flag_labelling_step stop_flag_prediction_step)

lemma stop_flag_exec_mono: "stop_flag s \<Longrightarrow> stop_flag (exec P L sched s)"
  by (rule exec_invariant[where I = stop_flag]) (simp_all add: stop_flag_step_mono)

lemma flags_inv_init: "flags_inv (Pipeline_init dg m p l)"
  by (simp add: flags_inv_def Pipeline_init_def)

lemma flags_inv_step: "flags_inv s \<Longrightarrow> flags_inv (step P L w s)"
proof (cases w)
  case Prediction
  assume "flags_inv s"
  then show ?thesis
    unfolding Prediction flags_inv_def step_def worker.case lpc_prediction_step stop_flag_prediction_step
    by (auto simp: prediction_step_def signal_def split: ppc.splits result.splits prod.splits list.splits)
next
  case Labelling
  assume "flags_inv s"
  then show ?thesis
    unfolding Labelling flags_inv_def step_def worker.case ppc_labelling_step stop_flag_labelling_step
    by (auto simp: labelling_step_def is_signaled_def split: lpc.splits result.splits prod.splits list.splits)
qed

lemma flags_inv_exec: "flags_inv (exec P L sched (Pipeline_init dg m p l))"
  by (rule exec_invariant[where I = flags_inv]) (simp_all add: flags_inv_step flags_inv_init)

lemma puts_of_append: "puts_of (es @ es') = puts_of es @ puts_of es'"
  by (induction es rule: puts_of.induct) simp_all

lemma drop_eq_Cons:
  assumes "drop k xs = y # ys"
  shows "k < length xs \<and> xs ! k = y \<and> drop (Suc k) xs = ys"
proof -
  from assms have k: "k < length xs"
    by (cases "k < length xs") auto
  from assms have "xs ! k = y" by (rule nth_via_drop)
  moreover from assms have "drop (Suc k) xs = ys"
    by (metis drop_Suc list.sel(3) tl_drop)
  ultimately show ?thesis using k by simp
qed

lemma pred_inv_init: "pred_inv P dg (Pipeline_init dg m p l)"
  by (simp add: pred_inv_def Pipeline_init_def)

lemma ptrace_labelling_step: "ptrace (labelling_step L s) = ptrace s"
  by (simp add: labelling_step_def split: lpc.splits result.splits prod.splits list.splits)

lemma enum_i_labelling_step: "enum_i (labelling_step L s) = enum_i s"
  by (simp add: labelling_step_def split: lpc.splits result.splits prod.splits list.splits)

lemma data_generator_labelling_step: "data_generator (labelling_step L s) = data_generator s"
  by (simp add: labelling_step_def split: lpc.splits result.splits prod.splits list.splits)

lemma pred_inv_labelling_step: "pred_inv P dg s \<Longrightarrow> pred_inv P dg (labelling_step L s)"
  by (simp add: pred_inv_def in_round_def ptrace_labelling_step ppc_labelling_step
      enum_i_labelling_step data_generator_labelling_step split: ppc.splits)

lemma pred_inv_prediction_step:
  assumes "pred_inv P dg s"
  shows "pred_inv P dg (prediction_step P s)"
proof (cases "ppc s")
  case P_next
  show ?thesis
  proof (cases "data_generator s")
    case Nil
    with P_next assms show ?thesis
      by (simp add: pred_inv_def prediction_step_def)
  next
    case (Cons r rest)
    have st: "prediction_step P s =
        s\<lparr>data_generator := rest, ppc := P_train_condition (enum_i s) r, enum_i := Suc (enum_i s)\<rparr>"
      using P_next Cons by (simp add: prediction_step_def)
    from P_next assms have inv: "map index (puts_of (ptrace s)) = [0..<length (puts_of (ptrace s))]"
      "\<forall>qp \<in> set (puts_of (ptrace s)). produced P dg qp"
      "enum_i s = length (puts_of (ptrace s))"
      "data_generator s = drop (length (puts_of (ptrace s))) dg"
      by (simp_all add: pred_inv_def)
    from inv(4) Cons have "drop (length (puts_of (ptrace s))) dg = r # rest"
      by simp
    from drop_eq_Cons[OF this] inv(1-3) show ?thesis
      unfolding st by (simp add: pred_inv_def in_round_def)
  qed
next
  case (P_train_condition i r)
  with assms show ?thesis
    by (auto simp: pred_inv_def prediction_step_def in_round_def puts_of_append
        split: result.splits prod.splits)
next
  case (P_train i r)
  with assms show ?thesis
    by (auto simp: pred_inv_def prediction_step_def in_round_def puts_of_append split: result.splits)
next
  case (P_predict i r)
  with assms show ?thesis
    by (auto simp: pred_inv_def prediction_step_def in_round_def puts_of_append produced_def
        QueuePoint_init_def split: result.splits)
next
  case (P_put qp)
  with assms have inv: "map index (puts_of (ptrace s)) = [0..<length (puts_of (ptrace s))]"
    "\<forall>qp \<in> set (puts_of (ptrace s)). produced P dg qp"
    "index qp = length (puts_of (ptrace s))" "produced P dg qp"
    "enum_i s = Suc (index qp)" "data_generator s = drop (Suc (index qp)) dg"
    by (simp_all add: pred_inv_def)
  from inv(4) have "index qp < length dg"
    by (simp add: produced_def)
  with inv P_put show ?thesis
    by (simp add: pred_inv_def prediction_step_def puts_of_append)
next
  case P_set
  with assms show ?thesis
    by (simp add: pred_inv_def prediction_step_def signal_def puts_of_append)
next
  case P_done
  with assms show ?thesis by (simp add: prediction_step_def)
next
  case (P_raised e)
  with assms show ?thesis by (simp add: prediction_step_def)
next
  case P_blocked
  with assms show ?thesis by (simp add: prediction_step_def)
qed

lemma pred_inv_step: "pred_inv P dg s \<Longrightarrow> pred_inv P dg (step P L w s)"
  by (cases w) (simp_all add: step_def pred_inv_prediction_step pred_inv_labelling_step)

lemma pred_inv_exec: "pred_inv P dg (exec P L sched (Pipeline_init dg m p l))"
  by (rule exec_invariant[where I = "pred_inv P dg"]) (simp_all add: pred_inv_step pred_inv_init)


lemma drains_prediction_step: "drains (prediction_step P s) = drains s"
  by (simp add: prediction_step_def signal_def split: ppc.splits result.splits prod.splits list.splits)

lemma training_set_prediction_step: "training_set (prediction_step P s) = training_set s"
  by (simp add: prediction_step_def signal_def split: ppc.splits result.splits prod.splits list.splits)

lemma eval_set_prediction_step: "eval_set (prediction_step P s) = eval_set s"
  by (simp add: prediction_step_def signal_def split: ppc.splits result.splits prod.splits list.splits)

lemma cons_inv_init: "cons_inv (Pipeline_init dg m p l)"
  by (simp add: cons_inv_def Pipeline_init_def BatchQueue_init_def taken_def)

lemma cons_inv_prediction_step: "cons_inv s \<Longrightarrow> cons_inv (prediction_step P s)"
  unfolding cons_inv_def drains_prediction_step
  by (cases "ppc s")
     (auto simp: prediction_step_def signal_def puts_of_append put_def
        split: result.splits list.splits)

lemma taken_snoc: "taken (ds @ [(c, d)]) = taken ds @ d"
  by (simp add: taken_def)

lemma taken_by_snoc:
  "taken_by c (ds @ [(c', d)]) = (if c' = c then taken_by c ds @ d else taken_by c ds)"
  by (simp add: taken_by_def)

lemma taken_split:
  "length (taken ds) = length (taken_by By_buy_labels ds) + length (taken_by By_condition ds)"
proof (induction ds rule: rev_induct)
  case Nil
  then show ?case by (simp add: taken_def taken_by_def)
next
  case (snoc d ds)
  obtain c b where d: "d = (c, b)"
    by (cases d)
  from snoc show ?case
    unfolding d by (cases c) (simp_all add: taken_snoc taken_by_snoc)
qed

lemma taken_by_subset: "set (taken_by c ds) \<subseteq> set (taken ds)"
  by (auto simp: taken_def taken_by_def)

lemma distinct_taken_by:
  "distinct (map f (taken ds)) \<Longrightarrow> distinct (map f (taken_by c ds))"
proof (induction ds rule: rev_induct)
  case Nil
  then show ?case by (simp add: taken_by_def)
next
  case (snoc d ds)
  obtain c' b where d: "d = (c', b)"
    by (cases d)
  from snoc taken_by_subset[of c ds] show ?case
    unfolding d by (auto simp: taken_snoc taken_by_snoc)
qed

lemma front_taken_off:
  assumes "items lq = d @ items lq'"
  shows "taken_off lq lq' = d"
proof -
  from assms have "length (items lq) - length (items lq') = length d"
    by (metis add_diff_cancel_right' length_append)
  with assms show ?thesis
    by (simp add: taken_off_def qsize_def)
qed

lemma takes_frontD:
  assumes "takes_front L"
  shows "buy_labels_condition L l lq = Returns (b, l', lq') \<Longrightarrow>
           items lq = taken_off lq lq' @ items lq'"
    and "buy_labels L l lq = Returns (res, l', lq') \<Longrightarrow>
           items lq = taken_off lq lq' @ items lq'"
proof -
  assume "buy_labels_condition L l lq = Returns (b, l', lq')"
  with assms obtain d where d: "items lq = d @ items lq'"
    unfolding takes_front_def by blast
  from front_taken_off[OF d] d show "items lq = taken_off lq lq' @ items lq'"
    by simp
next
  assume "buy_labels L l lq = Returns (res, l', lq')"
  with assms obtain d where d: "items lq = d @ items lq'"
    unfolding takes_front_def by blast
  from front_taken_off[OF d] d show "items lq = taken_off lq lq' @ items lq'"
    by simp
qed

lemma partitions_drainedD:
  assumes "partitions_drained L" and "buy_labels L l lq = Returns ((lp, up), l', lq')"
  shows "mset lp + mset up = mset (taken_off lq lq')"
proof -
  from assms obtain d where d: "items lq = d @ items lq'" "mset lp + mset up = mset d"
    unfolding partitions_drained_def by blast
  from front_taken_off[OF d(1)] d(2) show ?thesis
    by simp
qed

lemma cons_inv_labelling_step:
  assumes "takes_front L" and "cons_inv s"
  shows "cons_inv (labelling_step L s)"
proof (cases "lpc s")
  case L_condition
  show ?thesis
  proof (cases "buy_labels_condition L (labeller s) (labelling_queue s)")
    case (Returns res)
    obtain b l' lq' where res: "res = (b, l', lq')"
      by (metis prod.exhaust)
    from takes_frontD(1)[OF assms(1) Returns[unfolded res]] assms(2) L_condition Returns res
    show ?thesis
      by (simp add: cons_inv_def labelling_step_def taken_snoc)
  next
    case (Raises e)
    with L_condition assms(2) show ?thesis by (simp add: cons_inv_def labelling_step_def)
  next
    case Blocks
    with L_condition assms(2) show ?thesis by (simp add: cons_inv_def labelling_step_def)
  qed
next
  case L_buy
  show ?thesis
  proof (cases "buy_labels L (labeller s) (labelling_queue s)")
    case (Returns res)
    obtain lp up l' lq' where res: "res = ((lp, up), l', lq')"
      by (metis prod.exhaust)
    from takes_frontD(2)[OF assms(1) Returns[unfolded res]] assms(2) L_buy Returns res
    show ?thesis
      by (simp add: cons_inv_def labelling_step_def taken_snoc)
  next
    case (Raises e)
    with L_buy assms(2) show ?thesis by (simp add: cons_inv_def labelling_step_def)
  next
    case Blocks
    with L_buy assms(2) show ?thesis by (simp add: cons_inv_def labelling_step_def)
  qed
qed (use assms(2) in \<open>auto simp: cons_inv_def labelling_step_def split: list.splits\<close>)

lemma cons_inv_step: "takes_front L \<Longrightarrow> cons_inv s \<Longrightarrow> cons_inv (step P L w s)"
  by (cases w) (simp_all add: step_def cons_inv_prediction_step cons_inv_labelling_step)

lemma cons_inv_exec:
  assumes "takes_front L"
  shows "cons_inv (exec P L sched (Pipeline_init dg m p l))"
  by (rule exec_invariant[where I = cons_inv]) (simp_all add: cons_inv_step[OF assms] cons_inv_init)

lemma acc_inv_init: "acc_inv (Pipeline_init dg m p l)"
  by (simp add: acc_inv_def Pipeline_init_def taken_by_def)

lemma acc_inv_prediction_step: "acc_inv s \<Longrightarrow> acc_inv (prediction_step P s)"
  by (simp add: acc_inv_def drains_prediction_step training_set_prediction_step
      eval_set_prediction_step lpc_prediction_step)

lemma acc_inv_labelling_step:
  assumes "partitions_drained L" and "acc_inv s"
  shows "acc_inv (labelling_step L s)"
proof (cases "lpc s")
  case L_buy
  show ?thesis
  proof (cases "buy_labels L (labeller s) (labelling_queue s)")
    case (Returns res)
    obtain lp up l' lq' where res: "res = ((lp, up), l', lq')"
      by (metis prod.exhaust)
    from partitions_drainedD[OF assms(1) Returns[unfolded res]] assms(2) L_buy Returns res
    show ?thesis
      by (simp add: acc_inv_def labelling_step_def taken_by_snoc)
  next
    case (Raises e)
    with L_buy assms(2) show ?thesis by (simp add: acc_inv_def labelling_step_def)
  next
    case Blocks
    with L_buy assms(2) show ?thesis by (simp add: acc_inv_def labelling_step_def)
  qed
qed (use assms(2) in \<open>auto simp: acc_inv_def labelling_step_def taken_by_snoc ac_simps
       split: result.splits list.splits\<close>)

lemma acc_inv_step: "partitions_drained L \<Longrightarrow> acc_inv s \<Longrightarrow> acc_inv (step P L w s)"
  by (cases w) (simp_all add: step_def acc_inv_prediction_step acc_inv_labelling_step)

lemma acc_inv_exec:
  assumes "partitions_drained L"
  shows "acc_inv (exec P L sched (Pipeline_init dg m p l))"
  by (rule exec_invariant[where I = acc_inv]) (simp_all add: acc_inv_step[OF assms] acc_inv_init)

lemma run_Returns:
  "run P L sched dg m p l = Some (Returns (ts, es)) \<longleftrightarrow>
     (ppc (exec P L sched (Pipeline_init dg m p l)) = P_done \<and>
      lpc (exec P L sched (Pipeline_init dg m p l)) = L_done \<and>
      ts = training_set (exec P L sched (Pipeline_init dg m p l)) \<and>
      es = eval_set (exec P L sched (Pipeline_init dg m p l)))"
  by (auto simp: run_def Let_def)

lemma get_all_loop_Returns:
  "get_all_loop n out q = Returns (res, q') \<Longrightarrow> n \<le> length (items q) \<Longrightarrow>
   res = out @ take n (items q) \<and> items q' = drop n (items q)"
proof (induction n arbitrary: out q)
  case 0
  then show ?case by simp
next
  case (Suc n)
  then obtain x xs where q: "items q = x # xs"
    by (cases "items q") auto
  show ?case
  proof (cases "unfinished_tasks q = 0")
    case True
    with Suc.prems(1) q show ?thesis
      by (simp add: get_def task_done_def)
  next
    case False
    let ?q2 = "q\<lparr>items := xs, unfinished_tasks := unfinished_tasks q - 1\<rparr>"
    from False Suc.prems(1) q have "get_all_loop n (out @ [x]) ?q2 = Returns (res, q')"
      by (simp add: get_def task_done_def)
    moreover from Suc.prems(2) q have "n \<le> length (items ?q2)"
      by simp
    ultimately have "res = (out @ [x]) @ take n (items ?q2) \<and> items q' = drop n (items ?q2)"
      by (rule Suc.IH)
    with q show ?thesis by simp
  qed
qed

lemma get_all_Returns:
  "get_all q = Returns (res, q') \<Longrightarrow> res = items q \<and> items q' = []"
  using get_all_loop_Returns[of "qsize q" "[]" q res q']
  by (simp add: get_all_def qsize_def)

lemma ThresholdLabeller_buy_labels_Returns:
  assumes "buy_labels ThresholdLabeller_methods l lq = Returns ((lp, up), l', lq')"
  shows "items lq' = [] \<and> mset lp + mset up = mset (items lq)"
proof -
  from assms obtain pts where g: "get_all lq = Returns (pts, lq')"
    and b: "buy_labels_loop pts l [] [] = (l', lp, up)"
    by (auto simp: ThresholdLabeller_methods_def ThresholdLabeller_buy_labels_def
        split: result.splits prod.splits)
  from get_all_Returns[OF g] have pts: "pts = items lq" and e: "items lq' = []"
    by simp_all
  from b have "lp = map fst (filter snd (zip pts (bought l (length pts))))"
    and "up = map fst (filter (\<lambda>pb. \<not> snd pb) (zip pts (bought l (length pts))))"
    by (simp_all add: buy_labels_loop_eq)
  then have "mset lp + mset up = mset pts"
    by (simp only: mset_mask_split[OF length_bought])
  with pts e show ?thesis
    by simp
qed

lemma partitions_drained_ThresholdLabeller: "partitions_drained ThresholdLabeller_methods"
  unfolding partitions_drained_def
  by (auto dest!: ThresholdLabeller_buy_labels_Returns)

lemma takes_front_ThresholdLabeller: "takes_front ThresholdLabeller_methods"
  unfolding takes_front_def
proof (intro conjI allI impI)
  fix l lq b l' lq'
  assume "buy_labels_condition ThresholdLabeller_methods l lq = Returns (b, l', lq')"
  then have "lq' = lq"
    by (auto simp: ThresholdLabeller_methods_def ThresholdLabeller_buy_labels_condition_def
        Let_def split: if_splits)
  then show "\<exists>d. items lq = d @ items lq'"
    by simp
next
  fix l lq res l' lq'
  assume "buy_labels ThresholdLabeller_methods l lq = Returns (res, l', lq')"
  with ThresholdLabeller_buy_labels_Returns[of l lq "fst res" "snd res" l' lq']
  show "\<exists>d. items lq = d @ items lq'"
    by simp
qed

lemma BuyAllLabeller_buy_labels:
  assumes "buy_labels BuyAllLabeller l lq = Returns ((lp, up), l', lq')"
  shows "lp = items lq \<and> up = [] \<and> items lq' = []"
proof -
  from assms obtain pts where g: "get_all lq = Returns (pts, lq')" and "lp = pts" "up = []"
    by (auto simp: BuyAllLabeller_def split: result.splits prod.splits)
  with get_all_Returns[OF g] show ?thesis by simp
qed

lemma BuyAllLabeller_condition:
  assumes "buy_labels_condition BuyAllLabeller l lq = Returns (b, l', lq')"
  shows "lq' = lq"
  using assms by (simp add: BuyAllLabeller_def)

lemma partitions_drained_BuyAllLabeller: "partitions_drained BuyAllLabeller"
  unfolding partitions_drained_def
  by (auto dest!: BuyAllLabeller_buy_labels)

lemma takes_front_BuyAllLabeller: "takes_front BuyAllLabeller"
  unfolding takes_front_def
proof (intro conjI allI impI)
  fix l :: 'a and lq b l' lq'
  assume "buy_labels_condition BuyAllLabeller l lq = Returns (b, l', lq')"
  from BuyAllLabeller_condition[OF this] show "\<exists>d. items lq = d @ items lq'"
    by simp
next
  fix l :: 'a and lq res l' lq'
  assume "buy_labels BuyAllLabeller l lq = Returns (res, l', lq')"
  with BuyAllLabeller_buy_labels[of l lq "fst res" "snd res" l' lq']
  show "\<exists>d. items lq = d @ items lq'"
    by simp
qed

lemma HoardingLabeller_buy_labels:
  assumes "buy_labels HoardingLabeller l lq = Returns ((lp, up), l', lq')"
  shows "lp = items lq \<and> up = [] \<and> items lq' = []"
proof -
  from assms obtain pts where g: "get_all lq = Returns (pts, lq')" and "lp = pts" "up = []"
    by (auto simp: HoardingLabeller_def split: result.splits prod.splits)
  with get_all_Returns[OF g] show ?thesis by simp
qed

lemma partitions_drained_HoardingLabeller: "partitions_drained HoardingLabeller"
  unfolding partitions_drained_def
  by (auto dest!: HoardingLabeller_buy_labels)

text \<open>The equations that evaluate a run on concrete inputs.\<close>

lemmas run_simps = run_def step_def prediction_step_def labelling_step_def Pipeline_init_def
  signal_def is_signaled_def put_def get_def task_done_def get_all_def qsize_def BatchQueue_init_def
  QueuePoint_init_def taken_off_def taken_def taken_by_def

text \<open>
  Claim C3 as the code has it. When the labeller only consumes from the labelling queue
  and its \<^verbatim>\<open>buy_labels\<close> partitions what it drains (every drained point in exactly one of
  the two returned lists, none invented), the two sets that \<^verbatim>\<open>run\<close> returns together have
  as many entries as points were drained by the calls of \<^verbatim>\<open>buy_labels\<close>; with the points
  that \<^verbatim>\<open>buy_labels_condition\<close> took off the queue this is the number of points ever
  drained. No index occurs twice across the two sets, and every index is a position of
  the input stream.
\<close>

theorem C3_result_sets:
  assumes "takes_front L" and "partitions_drained L"
    and "run P L sched dg m p l = Some (Returns (ts, es))"
  shows "length ts + length es =
           length (taken_by By_buy_labels (drains (exec P L sched (Pipeline_init dg m p l)))) \<and>
         length ts + length es +
           length (taken_by By_condition (drains (exec P L sched (Pipeline_init dg m p l)))) =
           length (taken (drains (exec P L sched (Pipeline_init dg m p l)))) \<and>
         distinct (map index (ts @ es)) \<and>
         (\<forall>qp \<in> set (ts @ es). index qp < length dg)"
proof -
  let ?s = "exec P L sched (Pipeline_init dg m p l)"
  let ?B = "taken_by By_buy_labels (drains ?s)"
  from assms(3) have fin: "lpc ?s = L_done" "ts = training_set ?s" "es = eval_set ?s"
    by (simp_all add: run_Returns)
  from acc_inv_exec[OF assms(2), of P sched dg m p l] fin
  have m: "mset (ts @ es) = mset ?B"
    by (simp add: acc_inv_def)
  from cons_inv_exec[OF assms(1), of P sched dg m p l]
  have c: "puts_of (ptrace ?s) = taken (drains ?s) @ items (labelling_queue ?s)"
    by (simp add: cons_inv_def)
  from pred_inv_exec[of P dg L sched m p l]
  have i: "map index (puts_of (ptrace ?s)) = [0..<length (puts_of (ptrace ?s))]"
    and b: "length (puts_of (ptrace ?s)) \<le> length dg"
    by (simp_all add: pred_inv_def)
  from i have "distinct (map index (puts_of (ptrace ?s)))"
    by simp
  with c have "distinct (map index (taken (drains ?s)))"
    by simp
  then have dB: "distinct (map index ?B)"
    by (rule distinct_taken_by)
  from m have mi: "mset (map index (ts @ es)) = mset (map index ?B)"
    by (metis mset_map)
  from mi dB have d: "distinct (map index (ts @ es))"
    by (metis mset_eq_imp_distinct_iff)
  have r: "\<forall>qp \<in> set (ts @ es). index qp < length dg"
  proof
    fix qp assume "qp \<in> set (ts @ es)"
    with m have "qp \<in> set ?B" by (metis mset_eq_setD)
    with taken_by_subset have "qp \<in> set (taken (drains ?s))"
      by blast
    with c have "qp \<in> set (puts_of (ptrace ?s))" by simp
    then have "index qp \<in> set (map index (puts_of (ptrace ?s)))" by simp
    with i have "index qp < length (puts_of (ptrace ?s))" by simp
    with b show "index qp < length dg" by simp
  qed
  from m have n: "length (ts @ es) = length ?B"
    by (metis size_mset)
  with taken_split[of "drains ?s"] d r show ?thesis by simp
qed

theorem C3_result_sets_witness:
  "takes_front ThresholdLabeller_methods \<and> partitions_drained ThresholdLabeller_methods \<and>
   run ConstantPredictor ThresholdLabeller_methods
     (replicate 8 Prediction @ replicate 6 Labelling @ replicate 2 Prediction @ [Labelling])
     [[1, 0], [2, 1]] () () (ThresholdLabeller_init 0 (1/2) (\<lambda>k. if k = 1 then 1 else 0)) =
     Some (Returns ([QueuePoint_init [1] 0 (PNum 0) (PNum (1/2)) (PNum 0)],
                    [QueuePoint_init [2] 1 (PNum 0) (PNum (1/2)) (PNum 1)])) \<and>
   length [QueuePoint_init [1] 0 (PNum 0) (PNum (1/2)) (PNum 0)] +
   length [QueuePoint_init [2] 1 (PNum 0) (PNum (1/2)) (PNum 1)] =
     length (taken_by By_buy_labels (drains (exec ConstantPredictor ThresholdLabeller_methods
       (replicate 8 Prediction @ replicate 6 Labelling @ replicate 2 Prediction @ [Labelling])
       (Pipeline_init [[1, 0], [2, 1]] () ()
          (ThresholdLabeller_init 0 (1/2) (\<lambda>k. if k = 1 then 1 else 0)))))) \<and>
   distinct (map index ([QueuePoint_init [1] 0 (PNum 0) (PNum (1/2)) (PNum 0)] @
                        [QueuePoint_init [2] 1 (PNum 0) (PNum (1/2)) (PNum 1)])) \<and>
   index (QueuePoint_init [1] 0 (PNum 0) (PNum (1/2)) (PNum 0)) < length [[1, 0], [2, 1 :: real]] \<and>
   index (QueuePoint_init [2] 1 (PNum 0) (PNum (1/2)) (PNum 1)) < length [[1, 0], [2, 1 :: real]]"
proof -
  have h0: "takes_front ThresholdLabeller_methods"
    by (rule takes_front_ThresholdLabeller)
  have h1: "partitions_drained ThresholdLabeller_methods"
    by (rule partitions_drained_ThresholdLabeller)
  have h2: "run ConstantPredictor ThresholdLabeller_methods
     (replicate 8 Prediction @ replicate 6 Labelling @ replicate 2 Prediction @ [Labelling])
     [[1, 0], [2, 1]] () () (ThresholdLabeller_init 0 (1/2) (\<lambda>k. if k = 1 then 1 else 0)) =
     Some (Returns ([QueuePoint_init [1] 0 (PNum 0) (PNum (1/2)) (PNum 0)],
                    [QueuePoint_init [2] 1 (PNum 0) (PNum (1/2)) (PNum 1)]))"
    by (simp add: run_simps ConstantPredictor_def ThresholdLabeller_methods_def
        ThresholdLabeller_buy_labels_def ThresholdLabeller_buy_labels_condition_def
        ThresholdLabeller_init_def numeral_eq_Suc)
  from C3_result_sets[OF h0 h1 h2] h0 h1 h2 show ?thesis
    by (intro conjI) simp_all
qed

text \<open>
  Claim C3 as stated fails: a labeller whose condition takes the points off the labelling
  queue, as the docstring of \<^verbatim>\<open>LabellerBase\<close> lets it, and then decides not to buy. Its
  \<^verbatim>\<open>buy_labels\<close> partitions what it drains, \<^verbatim>\<open>run\<close> returns two empty sets, and one point
  was drained from the labelling queue.
\<close>

theorem C3_condition_drains_counterexample:
  "partitions_drained HoardingLabeller \<and>
   run ConstantPredictor HoardingLabeller
     (replicate 4 Prediction @ replicate 2 Labelling @ replicate 2 Prediction @ [Labelling])
     [[1, 0]] () () [] = Some (Returns ([], [])) \<and>
   taken (drains (exec ConstantPredictor HoardingLabeller
     (replicate 4 Prediction @ replicate 2 Labelling @ replicate 2 Prediction @ [Labelling])
     (Pipeline_init [[1, 0]] () () []))) =
     [QueuePoint_init [1] 0 (PNum 0) (PNum (1/2)) (PNum 0)] \<and>
   items (labelling_queue (exec ConstantPredictor HoardingLabeller
     (replicate 4 Prediction @ replicate 2 Labelling @ replicate 2 Prediction @ [Labelling])
     (Pipeline_init [[1, 0]] () () []))) = []"
proof -
  have "partitions_drained HoardingLabeller"
    by (rule partitions_drained_HoardingLabeller)
  then show ?thesis
    by (simp add: run_simps ConstantPredictor_def HoardingLabeller_def numeral_eq_Suc)
qed

subsection \<open>The stop flag\<close>

lemma states_all_set:
  "stop_flag s \<Longrightarrow> map stop_flag (states P L sched s) = replicate (Suc (length sched)) True"
proof (induction sched arbitrary: s)
  case Nil
  then show ?case by simp
next
  case (Cons w ws)
  from Cons.prems have "stop_flag (step P L w s)"
    by (rule stop_flag_step_mono)
  from Cons.IH[OF this] Cons.prems show ?case by simp
qed

lemma states_flags:
  "\<not> stop_flag s \<Longrightarrow>
   \<exists>j\<le>length sched.
     map stop_flag (states P L sched s) = replicate (Suc j) False @ replicate (length sched - j) True"
proof (induction sched arbitrary: s)
  case Nil
  then show ?case by simp
next
  case (Cons w ws)
  show ?case
  proof (cases "stop_flag (step P L w s)")
    case True
    from states_all_set[OF True, of P L ws] Cons.prems
    have "map stop_flag (states P L (w # ws) s) =
            replicate (Suc 0) False @ replicate (length (w # ws) - 0) True"
      by simp
    then show ?thesis by blast
  next
    case False
    from Cons.IH[OF False] obtain j where j: "j \<le> length ws"
      "map stop_flag (states P L ws (step P L w s)) =
         replicate (Suc j) False @ replicate (length ws - j) True"
      by blast
    with Cons.prems have "Suc j \<le> length (w # ws) \<and>
        map stop_flag (states P L (w # ws) s) =
          replicate (Suc (Suc j)) False @ replicate (length (w # ws) - Suc j) True"
      by simp
    then show ?thesis by blast
  qed
qed

lemma is_signaled_eq: "is_signaled = stop_flag"
  by (rule ext) (simp add: is_signaled_def)

text \<open>
  Claim C4. The stop flag starts false and \<^verbatim>\<open>signal\<close> sets it. From any state in which
  it is set, it is set after every further step of either worker, so \<^verbatim>\<open>is_signaled\<close>
  stays true. Along the states of any run the flag is false up to some state and true
  from then on: it changes at most once, and never back.
\<close>

theorem C4_stop_flag_one_shot:
  "\<not> is_signaled (Pipeline_init dg m p l) \<and>
   is_signaled (signal s) \<and>
   (is_signaled s \<longrightarrow> is_signaled (exec P L sched s)) \<and>
   (\<exists>j\<le>length sched.
      map is_signaled (states P L sched (Pipeline_init dg m p l)) =
        replicate (Suc j) False @ replicate (length sched - j) True)"
proof -
  have 1: "\<not> stop_flag (Pipeline_init dg m p l)"
    by (simp add: Pipeline_init_def)
  have 2: "stop_flag (signal s)"
    by (simp add: signal_def)
  have 3: "stop_flag s \<longrightarrow> stop_flag (exec P L sched s)"
    by (simp add: stop_flag_exec_mono)
  from 1 2 3 states_flags[OF 1, of sched P L] show ?thesis
    unfolding is_signaled_eq by blast
qed

theorem C4_stop_flag_one_shot_witness:
  "is_signaled (signal (Pipeline_init [[1, 0]] () () ())) \<and>
   is_signaled (exec ConstantPredictor BuyAllLabeller [Labelling, Prediction]
                  (signal (Pipeline_init [[1, 0]] () () ())))"
  using C4_stop_flag_one_shot[where s = "signal (Pipeline_init [[1, 0]] () () ())"
      and P = ConstantPredictor and L = BuyAllLabeller and sched = "[Labelling, Prediction]"
      and dg = "[[1, 0]]" and m = "()" and p = "()" and l = "()"]
  by (simp add: is_signaled_def signal_def)

subsection \<open>A predictor that raises\<close>

lemma stuck_inv_init:
  "dg \<noteq> [] \<Longrightarrow> 0 \<le> threshold l \<Longrightarrow> stuck_inv (Pipeline_init dg m p l)"
  by (simp add: stuck_inv_def Pipeline_init_def BatchQueue_init_def)

lemma stuck_inv_step:
  "stuck_inv s \<Longrightarrow> stuck_inv (step PredictorBase ThresholdLabeller_methods w s)"
proof (cases w)
  case Prediction
  assume "stuck_inv s"
  with Prediction show ?thesis
    by (cases "ppc s")
       (auto simp: stuck_inv_def step_def prediction_step_def PredictorBase_def
          split: list.splits)
next
  case Labelling
  assume "stuck_inv s"
  with Labelling show ?thesis
    by (auto simp: stuck_inv_def step_def labelling_step_def is_signaled_def
        ThresholdLabeller_methods_def ThresholdLabeller_buy_labels_condition_def qsize_def
        split: ppc.splits)
qed

lemma stuck_inv_exec:
  "dg \<noteq> [] \<Longrightarrow> 0 \<le> threshold l \<Longrightarrow>
   stuck_inv (exec PredictorBase ThresholdLabeller_methods sched (Pipeline_init dg m p l))"
  by (rule exec_invariant[where I = stuck_inv]) (simp_all add: stuck_inv_step stuck_inv_init)

lemma stuck_run:
  "dg \<noteq> [] \<Longrightarrow> 0 \<le> threshold l \<Longrightarrow>
   run PredictorBase ThresholdLabeller_methods sched dg m p l = None"
  using stuck_inv_exec[of dg l sched m p]
  by (auto simp: run_def Let_def stuck_inv_def)

text \<open>
  Claim C8, on the code: with the base-class predictor, whose \<^verbatim>\<open>train_condition\<close>
  raises \<^verbatim>\<open>NotImplementedError\<close>, the prediction worker has raised after its second step,
  and under no schedule does \<^verbatim>\<open>run\<close> end, neither with a result nor with the error: the
  stop flag is never set, so the labelling worker polls for ever and \<^verbatim>\<open>pool.join()\<close>
  waits for it.
\<close>

theorem C8_predictor_error_hangs:
  "ppc (exec PredictorBase ThresholdLabeller_methods [Prediction, Prediction]
         (Pipeline_init [[1, 0]] m p (ThresholdLabeller_init 0 (1/2) u))) =
     P_raised NotImplementedError \<and>
   run PredictorBase ThresholdLabeller_methods sched [[1, 0]] m p
     (ThresholdLabeller_init 0 (1/2) u) = None"
proof -
  have "run PredictorBase ThresholdLabeller_methods sched [[1, 0]] m p
     (ThresholdLabeller_init 0 (1/2) u) = None"
    by (rule stuck_run) (simp_all add: ThresholdLabeller_init_def)
  then show ?thesis
    by (simp add: step_def prediction_step_def Pipeline_init_def PredictorBase_def)
qed

subsection \<open>Points enqueued before the stop flag is set\<close>

lemma signal_inv_init: "signal_inv (Pipeline_init dg m p l)"
  by (simp add: signal_inv_def Pipeline_init_def)

lemma signal_inv_step: "signal_inv s \<Longrightarrow> signal_inv (step P L w s)"
proof (cases w)
  case Prediction
  assume "signal_inv s"
  with Prediction show ?thesis
    by (cases "ppc s")
       (auto simp: signal_inv_def step_def prediction_step_def signal_def
          split: result.splits list.splits if_splits prod.splits)
next
  case Labelling
  assume "signal_inv s"
  with Labelling show ?thesis
    by (simp add: signal_inv_def step_def ppc_labelling_step ptrace_labelling_step)
qed

lemma signal_inv_exec: "signal_inv (exec P L sched (Pipeline_init dg m p l))"
  by (rule exec_invariant[where I = signal_inv]) (simp_all add: signal_inv_step signal_inv_init)

lemma before_signal_last: "E_signal \<notin> set tr \<Longrightarrow> before_signal (tr @ [E_signal]) = tr"
  by (induction tr) (auto simp: before_signal_def)

lemma puts_before_signal:
  assumes "signal_inv s" and "ppc s = P_done"
  shows "puts_of (before_signal (ptrace s)) = puts_of (ptrace s)"
proof -
  from assms obtain tr where tr: "ptrace s = tr @ [E_signal]" "E_signal \<notin> set tr"
    by (auto simp: signal_inv_def)
  then show ?thesis
    by (simp add: before_signal_last puts_of_append)
qed

lemma finished_step: "ppc s = P_done \<Longrightarrow> lpc s = L_done \<Longrightarrow> step P L w s = s"
  by (cases w) (simp_all add: step_def prediction_step_def labelling_step_def)

lemma finished_exec: "ppc s = P_done \<Longrightarrow> lpc s = L_done \<Longrightarrow> exec P L sched s = s"
  by (induction sched) (simp_all add: finished_step)

lemma loop_test:
  "lpc t = L_while \<Longrightarrow>
   labelling_step L t = (if is_signaled t then t\<lparr>lpc := L_done\<rparr> else t\<lparr>lpc := L_condition\<rparr>)"
  by (simp add: labelling_step_def)

text \<open>
  Claim C1 as the code has it. The labelling worker tests the stop flag at the head of its
  loop only: when the flag is not set it goes on to the condition, and when the flag is set
  it returns at once, changing nothing, so without a last drain. For a labeller that only
  consumes from the labelling queue: when the worker has returned, the flag is set, every
  point that was enqueued before the flag was set has been taken off the queue by the
  labeller or is still in the labelling queue, in the order of the enqueues and none
  twice, and no later step changes anything.
\<close>

theorem C1_enqueued_drained_or_left:
  assumes "takes_front L"
    and "s = exec P L sched (Pipeline_init dg m p l)"
    and "lpc s = L_done"
  shows "is_signaled s \<and>
         puts_of (before_signal (ptrace s)) = taken (drains s) @ items (labelling_queue s) \<and>
         exec P L sched' s = s \<and>
         (lpc t = L_while \<and> is_signaled t \<longrightarrow> labelling_step L t = t\<lparr>lpc := L_done\<rparr>) \<and>
         (lpc t = L_while \<and> \<not> is_signaled t \<longrightarrow> labelling_step L t = t\<lparr>lpc := L_condition\<rparr>)"
proof -
  let ?e = "exec P L sched (Pipeline_init dg m p l)"
  from assms(2,3) have d: "lpc ?e = L_done"
    by simp
  with flags_inv_exec[of P L sched dg m p l] have f: "stop_flag ?e" and pd: "ppc ?e = P_done"
    by (auto simp: flags_inv_def)
  from signal_inv_exec[of P L sched dg m p l] pd
  have "puts_of (before_signal (ptrace ?e)) = puts_of (ptrace ?e)"
    by (rule puts_before_signal)
  with cons_inv_exec[OF assms(1), of P sched dg m p l]
  have c: "puts_of (before_signal (ptrace ?e)) = taken (drains ?e) @ items (labelling_queue ?e)"
    by (simp add: cons_inv_def)
  from f c finished_exec[OF pd d, of P L sched'] show ?thesis
    unfolding assms(2) by (simp add: is_signaled_def loop_test)
qed

theorem C1_enqueued_drained_or_left_witness:
  "takes_front (BuyAllLabeller :: unit Labeller) \<and>
   lpc (exec ConstantPredictor BuyAllLabeller
          (replicate 4 Prediction @ replicate 6 Labelling @ replicate 6 Prediction @ [Labelling])
          (Pipeline_init [[1, 0], [2, 1]] () () ())) = L_done \<and>
   is_signaled (exec ConstantPredictor BuyAllLabeller
          (replicate 4 Prediction @ replicate 6 Labelling @ replicate 6 Prediction @ [Labelling])
          (Pipeline_init [[1, 0], [2, 1]] () () ())) \<and>
   puts_of (before_signal (ptrace (exec ConstantPredictor BuyAllLabeller
          (replicate 4 Prediction @ replicate 6 Labelling @ replicate 6 Prediction @ [Labelling])
          (Pipeline_init [[1, 0], [2, 1]] () () ())))) =
     [QueuePoint_init [1] 0 (PNum 0) (PNum (1/2)) (PNum 0)] @
     [QueuePoint_init [2] 1 (PNum 0) (PNum (1/2)) (PNum 1)] \<and>
   lpc (signal (Pipeline_init [[1, 0]] () () ())) = L_while \<and>
   is_signaled (signal (Pipeline_init [[1, 0]] () () ())) \<and>
   labelling_step (BuyAllLabeller :: unit Labeller) (signal (Pipeline_init [[1, 0]] () () ())) =
     (signal (Pipeline_init [[1, 0]] () () ()))\<lparr>lpc := L_done\<rparr>"
proof -
  let ?s = "exec ConstantPredictor BuyAllLabeller
          (replicate 4 Prediction @ replicate 6 Labelling @ replicate 6 Prediction @ [Labelling])
          (Pipeline_init [[1, 0], [2, 1]] () () ())"
  let ?t = "signal (Pipeline_init [[1, 0]] () () ())"
  have t: "lpc ?t = L_while" "is_signaled ?t"
    by (simp_all add: signal_def is_signaled_def Pipeline_init_def)
  have h1: "takes_front (BuyAllLabeller :: unit Labeller)"
    by (rule takes_front_BuyAllLabeller)
  have h3: "lpc ?s = L_done"
    by (simp add: run_simps ConstantPredictor_def BuyAllLabeller_def numeral_eq_Suc)
  have d: "taken (drains ?s) = [QueuePoint_init [1] 0 (PNum 0) (PNum (1/2)) (PNum 0)]"
    by (simp add: run_simps ConstantPredictor_def BuyAllLabeller_def numeral_eq_Suc)
  have q: "items (labelling_queue ?s) = [QueuePoint_init [2] 1 (PNum 0) (PNum (1/2)) (PNum 1)]"
    by (simp add: run_simps ConstantPredictor_def BuyAllLabeller_def numeral_eq_Suc)
  from C1_enqueued_drained_or_left[OF h1 refl h3, where sched' = "[]" and t = ?t] h1 h3 t
  show ?thesis
    by (simp add: d q)
qed

text \<open>
  Claim C1 as stated fails: when the prediction worker enqueues the only point and sets
  the stop flag before the labelling worker tests the flag for the first time, the
  labelling worker returns at once. The point was enqueued before the flag was set, it was
  never taken off the labelling queue, and it is left there.
\<close>

theorem C1_final_batch_counterexample:
  "lpc (exec ConstantPredictor BuyAllLabeller (replicate 6 Prediction @ [Labelling])
          (Pipeline_init [[1, 0]] () () ())) = L_done \<and>
   QueuePoint_init [1] 0 (PNum 0) (PNum (1/2)) (PNum 0) \<in>
     set (puts_of (before_signal (ptrace
       (exec ConstantPredictor BuyAllLabeller (replicate 6 Prediction @ [Labelling])
          (Pipeline_init [[1, 0]] () () ()))))) \<and>
   QueuePoint_init [1] 0 (PNum 0) (PNum (1/2)) (PNum 0) \<notin>
     set (taken (drains
       (exec ConstantPredictor BuyAllLabeller (replicate 6 Prediction @ [Labelling])
          (Pipeline_init [[1, 0]] () () ())))) \<and>
   items (labelling_queue
       (exec ConstantPredictor BuyAllLabeller (replicate 6 Prediction @ [Labelling])
          (Pipeline_init [[1, 0]] () () ()))) =
     [QueuePoint_init [1] 0 (PNum 0) (PNum (1/2)) (PNum 0)]"
  by (simp add: run_simps ConstantPredictor_def BuyAllLabeller_def numeral_eq_Suc
      before_signal_def)

subsection \<open>The end-to-end scenario\<close>

lemma buy_all_inv_init: "buy_all_inv (Pipeline_init dg m p l)"
  by (simp add: buy_all_inv_def Pipeline_init_def taken_def)

lemma buy_all_inv_labelling_step:
  assumes "buy_all_inv s"
  shows "buy_all_inv (labelling_step BuyAllLabeller s)"
proof (cases "lpc s")
  case L_condition
  with assms show ?thesis
    by (simp add: buy_all_inv_def labelling_step_def BuyAllLabeller_def taken_snoc taken_off_def)
next
  case L_buy
  show ?thesis
  proof (cases "buy_labels BuyAllLabeller (labeller s) (labelling_queue s)")
    case (Returns res)
    obtain lp up l' lq' where res: "res = ((lp, up), l', lq')"
      by (metis prod.exhaust)
    from BuyAllLabeller_buy_labels[OF Returns[unfolded res]] assms L_buy Returns res
    show ?thesis
      by (simp add: buy_all_inv_def labelling_step_def qsize_def taken_snoc taken_off_def)
  next
    case (Raises e)
    with L_buy assms show ?thesis by (simp add: buy_all_inv_def labelling_step_def)
  next
    case Blocks
    with L_buy assms show ?thesis by (simp add: buy_all_inv_def labelling_step_def)
  qed
qed (use assms in \<open>auto simp: buy_all_inv_def labelling_step_def split: list.splits\<close>)

lemma buy_all_inv_step: "buy_all_inv s \<Longrightarrow> buy_all_inv (step P BuyAllLabeller w s)"
  by (cases w)
     (simp_all add: step_def buy_all_inv_labelling_step,
      simp add: buy_all_inv_def drains_prediction_step training_set_prediction_step
        eval_set_prediction_step lpc_prediction_step)

lemma buy_all_inv_exec: "buy_all_inv (exec P BuyAllLabeller sched (Pipeline_init dg m p l))"
  by (rule exec_invariant[where I = buy_all_inv]) (simp_all add: buy_all_inv_step buy_all_inv_init)

lemma puts_constant:
  assumes c: "\<And>p m x. do_prediction P p m x = Returns (y, c)"
    and inv: "pred_inv P dg s"
  shows "puts_of (ptrace s) =
     map (\<lambda>i. QueuePoint_init (butlast (dg ! i)) i y c (PNum (last (dg ! i))))
       [0..<length (puts_of (ptrace s))]"
proof (rule nth_equalityI)
  show "length (puts_of (ptrace s)) =
      length (map (\<lambda>i. QueuePoint_init (butlast (dg ! i)) i y c (PNum (last (dg ! i))))
        [0..<length (puts_of (ptrace s))])"
    by simp
next
  fix j assume j: "j < length (puts_of (ptrace s))"
  let ?qp = "puts_of (ptrace s) ! j"
  from inv have "map index (puts_of (ptrace s)) ! j = [0..<length (puts_of (ptrace s))] ! j"
    by (simp add: pred_inv_def)
  with j have ij: "index ?qp = j"
    by simp
  from inv j have "produced P dg ?qp"
    by (simp add: pred_inv_def)
  then obtain p m y' c' where "do_prediction P p m (butlast (dg ! index ?qp)) = Returns (y', c')"
    and "?qp = QueuePoint_init (butlast (dg ! index ?qp)) (index ?qp) y' c'
                 (PNum (last (dg ! index ?qp)))"
    unfolding produced_def by blast
  with c[of p m "butlast (dg ! index ?qp)"] ij
  have "?qp = QueuePoint_init (butlast (dg ! j)) j y c (PNum (last (dg ! j)))"
    by simp
  with j show "?qp =
      map (\<lambda>i. QueuePoint_init (butlast (dg ! i)) i y c (PNum (last (dg ! i))))
        [0..<length (puts_of (ptrace s))] ! j"
    by simp
qed

lemma scenario_points_eq:
  assumes "length xs = 5"
  shows "map (\<lambda>i. QueuePoint_init (butlast (scenario_stream xs ! i)) i (PNum 0) (PNum (1/2))
                 (PNum (last (scenario_stream xs ! i)))) [0..<5] = scenario_points xs"
    and "length (scenario_stream xs) = 5"
proof -
  from assms obtain a b c d e where xs: "xs = [a, b, c, d, e]"
    by (auto simp: numeral_eq_Suc length_Suc_conv)
  show "map (\<lambda>i. QueuePoint_init (butlast (scenario_stream xs ! i)) i (PNum 0) (PNum (1/2))
                 (PNum (last (scenario_stream xs ! i)))) [0..<5] = scenario_points xs"
    unfolding xs by (simp add: scenario_stream_def scenario_points_def numeral_eq_Suc upt_rec)
  show "length (scenario_stream xs) = 5"
    unfolding xs by (simp add: scenario_stream_def)
qed

text \<open>
  Claim C2 as the code has it. In the scenario, whenever \<^verbatim>\<open>run\<close> returns, the evaluation
  set is empty and the training set holds the first points of the stream, in stream order,
  with indices 0, 1, ... and as many as the labelling worker drained before it saw the
  stop flag: the training set followed by what is left in the labelling queue is the five
  scored points.
\<close>

theorem C2_scenario_training_set_prefix:
  assumes "length xs = 5"
    and "run ConstantPredictor BuyAllLabeller sched (scenario_stream xs) m p l =
           Some (Returns (ts, es))"
  shows "es = [] \<and>
         ts @ items (labelling_queue (exec ConstantPredictor BuyAllLabeller sched
                       (Pipeline_init (scenario_stream xs) m p l))) = scenario_points xs \<and>
         (\<exists>k\<le>5. ts = take k (scenario_points xs))"
proof -
  let ?s = "exec ConstantPredictor BuyAllLabeller sched (Pipeline_init (scenario_stream xs) m p l)"
  from assms(2) have fin: "lpc ?s = L_done" "ts = training_set ?s" "es = eval_set ?s"
    by (simp_all add: run_Returns)
  from flags_inv_exec[of ConstantPredictor BuyAllLabeller sched "scenario_stream xs" m p l] fin(1)
  have pd: "ppc ?s = P_done"
    by (auto simp: flags_inv_def)
  have pi: "pred_inv ConstantPredictor (scenario_stream xs) ?s"
    by (rule pred_inv_exec)
  with pd have n: "length (puts_of (ptrace ?s)) = 5"
    by (simp add: pred_inv_def scenario_points_eq(2)[OF assms(1)])
  have "puts_of (ptrace ?s) =
     map (\<lambda>i. QueuePoint_init (butlast (scenario_stream xs ! i)) i (PNum 0) (PNum (1/2))
                 (PNum (last (scenario_stream xs ! i)))) [0..<length (puts_of (ptrace ?s))]"
    by (rule puts_constant[OF _ pi]) (simp add: ConstantPredictor_def)
  then have puts: "puts_of (ptrace ?s) = scenario_points xs"
    unfolding n scenario_points_eq(1)[OF assms(1)] .
  from cons_inv_exec[OF takes_front_BuyAllLabeller, of ConstantPredictor sched
      "scenario_stream xs" m p l]
  have c: "puts_of (ptrace ?s) = taken (drains ?s) @ items (labelling_queue ?s)"
    by (simp add: cons_inv_def)
  from buy_all_inv_exec[of ConstantPredictor sched "scenario_stream xs" m p l] fin
  have b: "es = []" "ts = taken (drains ?s)"
    by (simp_all add: buy_all_inv_def)
  from b(2) c puts have eq: "ts @ items (labelling_queue ?s) = scenario_points xs"
    by simp
  then have "ts = take (length ts) (scenario_points xs)"
    by (metis append_eq_conv_conj)
  moreover from eq have "length ts \<le> length (scenario_points xs)"
    by (metis length_append le_add1)
  then have "length ts \<le> 5"
    using assms(1) by (simp add: scenario_points_def)
  ultimately have "\<exists>k\<le>5. ts = take k (scenario_points xs)"
    by blast
  with b(1) eq show ?thesis by simp
qed

theorem C2_scenario_training_set_prefix_witness:
  "length [[1], [2], [3], [4], [5 :: real]] = 5 \<and>
   run ConstantPredictor BuyAllLabeller
     ([Labelling] @ replicate 20 Prediction @ replicate 9 Labelling @ replicate 2 Prediction @
      [Labelling])
     (scenario_stream [[1], [2], [3], [4], [5]]) () () () =
     Some (Returns (scenario_points [[1], [2], [3], [4], [5]], [])) \<and>
   (\<exists>k\<le>5. scenario_points [[1], [2], [3], [4], [5]] =
            take k (scenario_points [[1], [2], [3], [4], [5]]))"
proof -
  have h1: "length [[1], [2], [3], [4], [5 :: real]] = 5"
    by simp
  have h2: "run ConstantPredictor BuyAllLabeller
     ([Labelling] @ replicate 20 Prediction @ replicate 9 Labelling @ replicate 2 Prediction @
      [Labelling])
     (scenario_stream [[1], [2], [3], [4], [5]]) () () () =
     Some (Returns (scenario_points [[1], [2], [3], [4], [5]], []))"
    by (simp add: run_simps ConstantPredictor_def BuyAllLabeller_def scenario_stream_def
        scenario_points_def numeral_eq_Suc upt_rec)
  from C2_scenario_training_set_prefix[OF h1 h2] h1 h2 show ?thesis
    by blast
qed

text \<open>
  Claim C2 as stated fails: when the prediction worker handles all five points and sets
  the stop flag before the labelling worker tests the flag for the first time, \<^verbatim>\<open>run\<close>
  returns an empty training set.
\<close>

theorem C2_scenario_counterexample:
  "run ConstantPredictor BuyAllLabeller (replicate 22 Prediction @ [Labelling])
     (scenario_stream [[1], [2], [3], [4], [5]]) () () () = Some (Returns ([], []))"
  by (simp add: run_simps ConstantPredictor_def BuyAllLabeller_def scenario_stream_def
      numeral_eq_Suc)

subsection \<open>The order of the prediction worker's calls\<close>
























end
